theory Spec2Isabelle
  imports
    Complex_Main
    "HOL-Library.Char_ord"
    "HOL-Library.List_Lexorder"
    "HOL-Library.Multiset"
    "HOL-Library.Word"
begin

section \<open>Python values used by the node\<close>

text \<open>
  The node \<^verbatim>\<open>LoadImageFromDirBM\<close> (file \<^verbatim>\<open>nodes/load_image_from_dir_bm.py\<close>) works on
  Python \<^verbatim>\<open>str\<close> values. A \<^typ>\<open>string\<close> here is a sequence of code points below 256
  (the Latin-1 block of Unicode); on that block the character classes of Python are
  written out below. Strings are compared as Python compares them, code point by code
  point, which is the order of \<^typ>\<open>string\<close> given by the imported list and character
  orders.
\<close>

datatype error =
    NoValidImageFiles   \<comment> \<open>the node's own \<^verbatim>\<open>FileNotFoundError\<close>\<close>
  | OSError             \<comment> \<open>raised by \<^verbatim>\<open>os.listdir\<close>, \<^verbatim>\<open>os.path.getmtime\<close>, \<^verbatim>\<open>os.path.getsize\<close>\<close>
  | ValueError          \<comment> \<open>raised by \<^verbatim>\<open>int(text)\<close>\<close>
  | TypeError           \<comment> \<open>raised by \<^verbatim>\<open><\<close> between an \<^verbatim>\<open>int\<close> and a \<^verbatim>\<open>str\<close>\<close>
  | IndexError          \<comment> \<open>raised by list indexing out of range\<close>
  | ImageError          \<comment> \<open>raised by \<^verbatim>\<open>Image.open\<close> and the decoder\<close>

definition is_decimal :: "char \<Rightarrow> bool" where
  \<comment> \<open>what \<^verbatim>\<open>\d\<close> matches: category Nd, below 256 the ASCII digits\<close>
  "is_decimal c = (c \<in> set ''0123456789'')"

definition is_digit_char :: "char \<Rightarrow> bool" where
  \<comment> \<open>what \<^verbatim>\<open>str.isdigit\<close> accepts among the code points below 256: the decimal digits
      and the superscripts U+00B2, U+00B3, U+00B9. Above 255 it accepts further characters
      that \<^verbatim>\<open>\d\<close> does not match (subscript and circled digits, ...); they are outside the
      strings of this theory, and nothing below is stated about names that hold them\<close>
  "is_digit_char c = (is_decimal c \<or> of_char c \<in> {178, 179, 185 :: nat})"

definition str_isdigit :: "string \<Rightarrow> bool" where
  "str_isdigit s = (s \<noteq> [] \<and> list_all is_digit_char s)"

definition digit_value :: "char \<Rightarrow> int" where
  "digit_value c = int (of_char c) - 48"

definition py_int :: "string \<Rightarrow> error + int" where
  \<comment> \<open>\<^verbatim>\<open>int(text)\<close> on a text that \<^verbatim>\<open>isdigit\<close> accepted: decimal digits give their value,
      a superscript digit is an invalid literal\<close>
  "py_int s = (if s \<noteq> [] \<and> list_all is_decimal s
               then Inr (foldl (\<lambda>a c. 10 * a + digit_value c) 0 s)
               else Inl ValueError)"

definition char_lower :: "char \<Rightarrow> char" where
  "char_lower c = (let n = of_char c :: nat in
     if (65 \<le> n \<and> n \<le> 90) \<or> (192 \<le> n \<and> n \<le> 222 \<and> n \<noteq> 215)
     then char_of (n + 32) else c)"

definition str_lower :: "string \<Rightarrow> string" where
  "str_lower s = map char_lower s"

definition is_space :: "char \<Rightarrow> bool" where
  "is_space c = (of_char c \<in> {9, 10, 11, 12, 13, 28, 29, 30, 31, 32, 133, 160 :: nat})"

definition strip :: "string \<Rightarrow> string" where
  "strip s = rev (dropWhile is_space (rev (dropWhile is_space s)))"

fun split_on :: "char \<Rightarrow> string \<Rightarrow> string list" where
  "split_on sep [] = [[]]"
| "split_on sep (c # cs) =
     (if c = sep then [] # split_on sep cs
      else (case split_on sep cs of
              [] \<Rightarrow> [[c]]
            | w # ws \<Rightarrow> (c # w) # ws))"

definition endswith :: "string \<Rightarrow> string \<Rightarrow> bool" where
  "endswith s suf = (length suf \<le> length s \<and> drop (length s - length suf) s = suf)"

definition endswith_any :: "string \<Rightarrow> string list \<Rightarrow> bool" where
  "endswith_any s sufs = list_ex (endswith s) sufs"

definition rfind :: "char \<Rightarrow> string \<Rightarrow> int" where
  \<comment> \<open>index of the last occurrence, \<open>-1\<close> when there is none\<close>
  "rfind c s = (if c \<in> set s
                then int (length s) - 1 - int (length (takeWhile (\<lambda>x. x \<noteq> c) (rev s)))
                else - 1)"

subsection \<open>\<^verbatim>\<open>os.path\<close> (POSIX flavour)\<close>

definition basename :: "string \<Rightarrow> string" where
  "basename p = drop (nat (rfind CHR ''/'' p + 1)) p"

definition join :: "string \<Rightarrow> string \<Rightarrow> string" where
  "join a b = (if b \<noteq> [] \<and> hd b = CHR ''/'' then b
               else if a = [] \<or> last a = CHR ''/'' then a @ b
               else a @ ''/'' @ b)"

function skip_dots :: "string \<Rightarrow> nat \<Rightarrow> nat \<Rightarrow> bool" where
  \<comment> \<open>the \<^verbatim>\<open>while filenameIndex < dotIndex\<close> loop of \<^verbatim>\<open>genericpath._splitext\<close>:
      True when a character other than the dot is met before \<open>dotIndex\<close>\<close>
  "skip_dots p filenameIndex dotIndex =
     (if filenameIndex < dotIndex
      then (if take 1 (drop filenameIndex p) \<noteq> ''.'' then True
            else skip_dots p (filenameIndex + 1) dotIndex)
      else False)"
  by pat_completeness auto
termination
  by (relation "measure (\<lambda>(p, i, d). d - i)") auto

definition splitext :: "string \<Rightarrow> string \<times> string" where
  "splitext p =
     (let sepIndex = rfind CHR ''/'' p;
          dotIndex = rfind CHR ''.'' p
      in if dotIndex > sepIndex \<and> skip_dots p (nat (sepIndex + 1)) (nat dotIndex)
         then (take (nat dotIndex) p, drop (nat dotIndex) p)
         else (p, []))"

section \<open>The natural sort key\<close>

function re_split_digits :: "string \<Rightarrow> string list" where
  \<comment> \<open>\<^verbatim>\<open>re.split(r'(\d+)', name)\<close>: text, digit run, text, digit run, ..., text\<close>
  "re_split_digits s =
     (case dropWhile (\<lambda>c. \<not> is_decimal c) s of
        [] \<Rightarrow> [s]
      | c # cs \<Rightarrow> takeWhile (\<lambda>c. \<not> is_decimal c) s
                 # takeWhile is_decimal (c # cs)
                 # re_split_digits (dropWhile is_decimal cs))"
  by pat_completeness auto
termination
proof (relation "measure length", goal_cases)
  case 1
  show ?case by simp
next
  case (2 s c cs)
  have "length (dropWhile is_decimal cs) \<le> length cs"
    by (rule length_dropWhile_le)
  moreover have "length (c # cs) \<le> length s"
    using length_dropWhile_le [of "\<lambda>c. \<not> is_decimal c" s] 2 by simp
  ultimately show ?case by simp
qed

datatype key_part = KInt int | KText string

definition key_of_run :: "string \<Rightarrow> error + key_part" where
  \<comment> \<open>\<^verbatim>\<open>int(text) if text.isdigit() else text.lower()\<close>\<close>
  "key_of_run text =
     (if str_isdigit text
      then (case py_int text of Inl e \<Rightarrow> Inl e | Inr n \<Rightarrow> Inr (KInt n))
      else Inr (KText (str_lower text)))"

fun collect :: "(error + 'a) list \<Rightarrow> error + 'a list" where
  \<comment> \<open>a list comprehension whose elements may raise: the first exception wins\<close>
  "collect [] = Inr []"
| "collect (r # rs) =
     (case r of
        Inl e \<Rightarrow> Inl e
      | Inr v \<Rightarrow> (case collect rs of Inl e \<Rightarrow> Inl e | Inr vs \<Rightarrow> Inr (v # vs)))"

definition natural_sort_key :: "string \<Rightarrow> error + key_part list" where
  "natural_sort_key s = collect (map key_of_run (re_split_digits (basename s)))"

subsection \<open>Comparison of keys\<close>

fun part_lt :: "key_part \<Rightarrow> key_part \<Rightarrow> error + bool" where
  "part_lt (KInt a) (KInt b) = Inr (a < b)"
| "part_lt (KText s) (KText t) = Inr (s < t)"
| "part_lt (KInt a) (KText t) = Inl TypeError"
| "part_lt (KText s) (KInt b) = Inl TypeError"

fun list_lt :: "key_part list \<Rightarrow> key_part list \<Rightarrow> error + bool" where
  \<comment> \<open>Python's \<^verbatim>\<open><\<close> on lists: the first pair of unequal elements decides\<close>
  "list_lt [] [] = Inr False"
| "list_lt [] (y # ys) = Inr True"
| "list_lt (x # xs) [] = Inr False"
| "list_lt (x # xs) (y # ys) = (if x = y then list_lt xs ys else part_lt x y)"

section \<open>\<^verbatim>\<open>sorted\<close>\<close>

text \<open>
  \<^verbatim>\<open>sorted(files, key=k, reverse=r)\<close> computes the key of every element first, reverses
  the list when \<open>r\<close> is set, sorts stably using only \<^verbatim>\<open><\<close> on the keys, and reverses
  the result again. The stable sort is written as insertion from the right.
\<close>

fun insort_py :: "('k \<Rightarrow> 'k \<Rightarrow> error + bool) \<Rightarrow> 'k \<times> 'a \<Rightarrow> ('k \<times> 'a) list
                    \<Rightarrow> error + ('k \<times> 'a) list" where
  "insort_py lt x [] = Inr [x]"
| "insort_py lt x (y # ys) =
     (case lt (fst y) (fst x) of
        Inl e \<Rightarrow> Inl e
      | Inr b \<Rightarrow> (if b then (case insort_py lt x ys of
                               Inl e \<Rightarrow> Inl e
                             | Inr zs \<Rightarrow> Inr (y # zs))
                 else Inr (x # y # ys)))"

fun sort_py :: "('k \<Rightarrow> 'k \<Rightarrow> error + bool) \<Rightarrow> ('k \<times> 'a) list \<Rightarrow> error + ('k \<times> 'a) list" where
  "sort_py lt [] = Inr []"
| "sort_py lt (x # xs) =
     (case sort_py lt xs of Inl e \<Rightarrow> Inl e | Inr ys \<Rightarrow> insort_py lt x ys)"

definition sorted_py :: "('k \<Rightarrow> 'k \<Rightarrow> error + bool) \<Rightarrow> ('a \<Rightarrow> error + 'k) \<Rightarrow> bool \<Rightarrow> 'a list
                          \<Rightarrow> error + 'a list" where
  "sorted_py lt key reverse xs =
     (case collect (map key xs) of
        Inl e \<Rightarrow> Inl e
      | Inr ks \<Rightarrow>
          (case sort_py lt (if reverse then rev (zip ks xs) else zip ks xs) of
             Inl e \<Rightarrow> Inl e
           | Inr s \<Rightarrow> Inr (map snd (if reverse then rev s else s))))"

section \<open>Collaborators: file system and image decoder\<close>

text \<open>
  A decoded image as the node reads it: its size, the names of its bands
  (\<^verbatim>\<open>getbands()\<close>), the bytes of the band \<^verbatim>\<open>A\<close> in row order (\<^verbatim>\<open>getchannel('A')\<close>) and
  the bytes of \<^verbatim>\<open>convert("RGB")\<close>, three per pixel in row order.
\<close>

record pil_image =
  im_width :: nat
  im_height :: nat
  im_bands :: "string list"
  im_alpha :: "8 word list"
  im_rgb :: "8 word list"

text \<open>
  The world outside the node. A call that raises returns \<open>None\<close>. \<open>isfile\<close> is never
  called by the node; it is here so that properties of the entries can be stated.
  \<open>image_open\<close> stands for opening and decoding the file: \<^verbatim>\<open>Image.open\<close> reads lazily,
  and a file that it accepts can still fail in \<^verbatim>\<open>exif_transpose\<close>, \<^verbatim>\<open>getchannel\<close>,
  \<^verbatim>\<open>convert\<close> or \<^verbatim>\<open>np.array\<close>; \<open>None\<close> covers a failure in any of them.
\<close>

record filesystem =
  isdir :: "string \<Rightarrow> bool"
  isfile :: "string \<Rightarrow> bool"
  listdir :: "string \<Rightarrow> string list option"
  getmtime :: "string \<Rightarrow> rat option"
  getsize :: "string \<Rightarrow> nat option"
  image_open :: "string \<Rightarrow> pil_image option"
  exif_transpose :: "pil_image \<Rightarrow> pil_image"

section \<open>Tensors of 32-bit floats\<close>

text \<open>
  A tensor is its shape and its values in row order. A value is the rational number
  that the 32-bit float denotes; \<open>f32_round\<close> is rounding to the nearest float with 24
  significant bits, ties to even, for \<open>0 \<le> x < 2\<close> (every number the node computes lies
  between 0 and 1). The exponent stops at \<open>-126\<close>, below which floats are subnormal.
\<close>

record tensor =
  t_shape :: "nat list"
  t_data :: "rat list"

fun f32_exponent :: "nat \<Rightarrow> rat \<Rightarrow> nat" where
  \<comment> \<open>the \<open>k\<close> with \<open>2^-k \<le> x < 2^(1-k)\<close>, at most the fuel\<close>
  "f32_exponent 0 x = 0"
| "f32_exponent (Suc n) x = (if 1 \<le> x then 0 else Suc (f32_exponent n (2 * x)))"

definition round_half_even :: "rat \<Rightarrow> int" where
  "round_half_even r =
     (let f = \<lfloor>r\<rfloor>; d = r - of_int f
      in if d < 1 / 2 then f
         else if 1 / 2 < d then f + 1
         else if even f then f else f + 1)"

definition f32_round :: "rat \<Rightarrow> rat" where
  "f32_round x =
     (if x = 0 then 0
      else (let q = 1 / 2 ^ (23 + f32_exponent 126 x)
            in of_int (round_half_even (x / q)) * q))"

definition zeros :: "nat list \<Rightarrow> tensor" where
  "zeros shp = \<lparr>t_shape = shp, t_data = replicate (prod_list shp) 0\<rparr>"

definition unsqueeze0 :: "tensor \<Rightarrow> tensor" where
  "unsqueeze0 t = t\<lparr>t_shape := 1 # t_shape t\<rparr>"

definition byte_to_unit :: "8 word \<Rightarrow> rat" where
  \<comment> \<open>\<^verbatim>\<open>.astype(np.float32) / 255.0\<close> on one byte\<close>
  "byte_to_unit b = f32_round (of_nat (unat b) / 255)"

definition alpha_np :: "pil_image \<Rightarrow> tensor" where
  \<comment> \<open>\<^verbatim>\<open>np.array(alpha_channel).astype(np.float32) / 255.0\<close>\<close>
  "alpha_np img = \<lparr>t_shape = [im_height img, im_width img],
                    t_data = map byte_to_unit (im_alpha img)\<rparr>"

definition one_minus :: "tensor \<Rightarrow> tensor" where
  \<comment> \<open>\<^verbatim>\<open>1.0 - t\<close>\<close>
  "one_minus t = t\<lparr>t_data := map (\<lambda>x. f32_round (1 - x)) (t_data t)\<rparr>"

definition np_image :: "pil_image \<Rightarrow> tensor" where
  \<comment> \<open>\<^verbatim>\<open>np.array(image).astype(np.float32) / 255.0\<close> after \<^verbatim>\<open>convert("RGB")\<close>\<close>
  "np_image img = \<lparr>t_shape = [im_height img, im_width img, 3],
                    t_data = map byte_to_unit (im_rgb img)\<rparr>"

section \<open>The node\<close>

definition valid_extensions :: "string list" where
  "valid_extensions = [''.png'', ''.jpg'', ''.jpeg'', ''.webp'', ''.bmp'', ''.tiff'']"

definition stat :: "'a option \<Rightarrow> error + 'a" where
  "stat r = (case r of None \<Rightarrow> Inl OSError | Some v \<Rightarrow> Inr v)"

definition sort_files :: "filesystem \<Rightarrow> string list \<Rightarrow> string \<Rightarrow> error + string list" where
  "sort_files fs files sort_method =
     (if sort_method = ''Filename''
      then sorted_py list_lt natural_sort_key False files
      else if sort_method = ''Date (Newest First)''
      then sorted_py (\<lambda>a b. Inr (a < b)) (\<lambda>x. stat (getmtime fs x)) True files
      else if sort_method = ''Date (Oldest First)''
      then sorted_py (\<lambda>a b. Inr (a < b)) (\<lambda>x. stat (getmtime fs x)) False files
      else if sort_method = ''FileSize''
      then sorted_py (\<lambda>a b. Inr (a < b)) (\<lambda>x. stat (getsize fs x)) False files
      else Inr files)"

definition parse_directories :: "filesystem \<Rightarrow> string \<Rightarrow> string list" where
  \<comment> \<open>\<^verbatim>\<open>[p.strip() for p in directory.split(";") if os.path.isdir(p.strip())]\<close>\<close>
  "parse_directories fs directory =
     map strip (filter (\<lambda>p. isdir fs (strip p)) (split_on CHR '';'' directory))"

fun scan_names :: "string \<Rightarrow> string list \<Rightarrow> string list \<Rightarrow> string list" where
  \<comment> \<open>the inner loop over \<^verbatim>\<open>os.listdir(dir_path)\<close>, appending to \<open>image_files\<close>\<close>
  "scan_names dir_path [] image_files = image_files"
| "scan_names dir_path (filename # rest) image_files =
     scan_names dir_path rest
       (if endswith_any (str_lower filename) valid_extensions
        then image_files @ [join dir_path filename]
        else image_files)"

fun scan_dirs :: "filesystem \<Rightarrow> string list \<Rightarrow> string list \<Rightarrow> error + string list" where
  \<comment> \<open>the outer loop over \<open>directories\<close>\<close>
  "scan_dirs fs [] image_files = Inr image_files"
| "scan_dirs fs (dir_path # rest) image_files =
     (case listdir fs dir_path of
        None \<Rightarrow> Inl OSError
      | Some names \<Rightarrow> scan_dirs fs rest (scan_names dir_path names image_files))"

definition getitem :: "'a list \<Rightarrow> int \<Rightarrow> error + 'a" where
  \<comment> \<open>\<^verbatim>\<open>xs[i]\<close>: a negative index counts from the end\<close>
  "getitem xs i =
     (if 0 \<le> i \<and> i < int (length xs) then Inr (xs ! nat i)
      else if i < 0 \<and> - int (length xs) \<le> i then Inr (xs ! nat (int (length xs) + i))
      else Inl IndexError)"

definition clamp_index :: "int \<Rightarrow> int \<Rightarrow> int" where
  \<comment> \<open>\<^verbatim>\<open>max(0, min(file_number, file_count - 1))\<close>\<close>
  "clamp_index file_number file_count = max 0 (min file_number (file_count - 1))"

definition make_mask :: "pil_image \<Rightarrow> tensor" where
  "make_mask img =
     (let has_alpha = (''A'' \<in> set (im_bands img))
      in if has_alpha then one_minus (alpha_np img) else zeros [64, 64])"

record outputs =
  tensor_image :: tensor
  mask_tensor :: tensor
  image_path :: string
  filename :: string
  filename_no_ext :: string
  file_count :: int

definition load_image :: "filesystem \<Rightarrow> string \<Rightarrow> int \<Rightarrow> string \<Rightarrow> error + outputs" where
  "load_image fs directory file_number sort_by =
     (case scan_dirs fs (parse_directories fs directory) [] of
        Inl e \<Rightarrow> Inl e
      | Inr found \<Rightarrow>
     (case sort_files fs found sort_by of
        Inl e \<Rightarrow> Inl e
      | Inr image_files \<Rightarrow>
     (let count = int (length image_files)
      in if count = 0 then Inl NoValidImageFiles
         else (case getitem image_files (clamp_index file_number count) of
                 Inl e \<Rightarrow> Inl e
               | Inr path \<Rightarrow>
              (case image_open fs path of
                 None \<Rightarrow> Inl ImageError
               | Some opened \<Rightarrow>
                  (let img = exif_transpose fs opened
                   in Inr \<lparr>tensor_image = unsqueeze0 (np_image img),
                           mask_tensor = unsqueeze0 (make_mask img),
                           image_path = path,
                           filename = basename path,
                           filename_no_ext = fst (splitext (basename path)),
                           file_count = count\<rparr>))))))"

section \<open>A small file system for concrete runs\<close>

definition demo_image :: pil_image where
  "demo_image = \<lparr>im_width = 3, im_height = 1, im_bands = [''R'', ''G'', ''B'', ''A''],
                  im_alpha = [0, 128, 255], im_rgb = [1, 2, 3, 4, 5, 6, 7, 8, 9]\<rparr>"

definition demo_rgb :: pil_image where
  "demo_rgb = \<lparr>im_width = 1, im_height = 2, im_bands = [''R'', ''G'', ''B''],
                im_alpha = [], im_rgb = [10, 20, 30, 40, 50, 60]\<rparr>"

definition demo_fs :: filesystem where
  "demo_fs =
     \<lparr>isdir = (\<lambda>p. p = ''A'' \<or> p = ''B''),
      isfile = (\<lambda>p. p = ''A/a.png'' \<or> p = ''B/b.jpg''),
      listdir = (\<lambda>p. if p = ''A'' then Some [''a.png'', ''notes.txt'']
                      else if p = ''B'' then Some [''b.jpg'']
                      else None),
      getmtime = (\<lambda>p. if p = ''A/a.png'' then Some 20
                       else if p = ''B/b.jpg'' then Some 10
                       else None),
      getsize = (\<lambda>p. if p = ''A/a.png'' then Some 7
                      else if p = ''B/b.jpg'' then Some 7
                      else None),
      image_open = (\<lambda>p. if p = ''A/a.png'' then Some demo_image
                         else if p = ''B/b.jpg'' then Some demo_rgb
                         else None),
      exif_transpose = (\<lambda>img. img)\<rparr>"

definition sub_fs :: filesystem where
  "sub_fs =
     \<lparr>isdir = (\<lambda>p. p = ''A'' \<or> p = ''A/sub.png''),
      isfile = (\<lambda>p. False),
      listdir = (\<lambda>p. if p = ''A'' then Some [''sub.png'']
                      else if p = ''A/sub.png'' then Some []
                      else None),
      getmtime = (\<lambda>p. if p = ''A/sub.png'' then Some 5 else None),
      getsize = (\<lambda>p. if p = ''A/sub.png'' then Some 4096 else None),
      image_open = (\<lambda>p. None),
      exif_transpose = (\<lambda>img. img)\<rparr>"

definition has_valid_extension :: "string \<Rightarrow> bool" where
  "has_valid_extension name = endswith_any (str_lower name) valid_extensions"

declare re_split_digits.simps [simp del]

section \<open>Orders used in the proofs\<close>

text \<open>
  Python orders integers among themselves and strings among themselves. For the
  proofs the two are put into one linear order, every integer below every string;
  \<open>list_lt\<close> is shown to agree with the lexicographic order built on it for all keys
  that \<open>natural_sort_key\<close> produces, where an integer never meets a string.
\<close>

instantiation key_part :: linorder
begin

fun less_eq_key_part :: "key_part \<Rightarrow> key_part \<Rightarrow> bool" where
  "less_eq_key_part (KInt a) (KInt b) = (a \<le> b)"
| "less_eq_key_part (KText s) (KText t) = (s \<le> t)"
| "less_eq_key_part (KInt a) (KText t) = True"
| "less_eq_key_part (KText s) (KInt b) = False"

definition less_key_part :: "key_part \<Rightarrow> key_part \<Rightarrow> bool" where
  "less_key_part x y = (x \<le> y \<and> \<not> y \<le> x)"

instance
proof
  fix x y z :: key_part
  show "(x < y) = (x \<le> y \<and> \<not> y \<le> x)" by (rule less_key_part_def)
  show "x \<le> x" by (cases x) simp_all
  show "x \<le> y \<Longrightarrow> y \<le> z \<Longrightarrow> x \<le> z"
    by (cases x; cases y; cases z) auto
  show "x \<le> y \<Longrightarrow> y \<le> x \<Longrightarrow> x = y"
    by (cases x; cases y) auto
  show "x \<le> y \<or> y \<le> x"
    by (cases x; cases y) auto
qed

end

fun alternating :: "key_part list \<Rightarrow> bool" where
  \<comment> \<open>text, integer, text, ..., text: text at the even places, integers at the odd ones\<close>
  "alternating [KText t] = True"
| "alternating (KText t # KInt n # rest) = alternating rest"
| "alternating ks = False"

fun runs_ok :: "string list \<Rightarrow> bool" where
  \<comment> \<open>text without decimal digits, then a non-empty run of decimal digits, and so on;
      only the first and the last text may be empty\<close>
  "runs_ok [t] = (\<forall>c \<in> set t. \<not> is_decimal c)"
| "runs_ok (t # d # rest) =
     ((\<forall>c \<in> set t. \<not> is_decimal c) \<and> d \<noteq> [] \<and> (\<forall>c \<in> set d. is_decimal c)
      \<and> (1 < length rest \<longrightarrow> hd rest \<noteq> []) \<and> runs_ok rest)"
| "runs_ok [] = False"

definition ascii_only :: "string \<Rightarrow> bool" where
  \<comment> \<open>every character is an ASCII character, a code point below 128\<close>
  "ascii_only s = (\<forall>c \<in> set s. of_char c < (128 :: nat))"

definition ties :: "filesystem \<Rightarrow> string \<Rightarrow> string \<Rightarrow> string \<Rightarrow> bool" where
  \<comment> \<open>two paths have the same key under the sort mode\<close>
  "ties fs sort_method x y =
     (if sort_method = ''Filename'' then natural_sort_key x = natural_sort_key y
      else if sort_method = ''Date (Newest First)'' \<or> sort_method = ''Date (Oldest First)''
      then getmtime fs x = getmtime fs y
      else if sort_method = ''FileSize'' then getsize fs x = getsize fs y
      else True)"

definition tie_fs :: "string list \<Rightarrow> filesystem" where
  \<comment> \<open>one directory \<open>A\<close>, listed in the given order; \<open>a.png\<close> and \<open>b.png\<close> have the same
      size and the same time, \<open>c.png\<close> is smaller and older\<close>
  "tie_fs listing =
     \<lparr>isdir = (\<lambda>p. p = ''A''),
      isfile = (\<lambda>p. p = ''A/a.png'' \<or> p = ''A/b.png'' \<or> p = ''A/c.png''),
      listdir = (\<lambda>p. if p = ''A'' then Some listing else None),
      getmtime = (\<lambda>p. if p = ''A/a.png'' \<or> p = ''A/b.png'' then Some 100
                       else if p = ''A/c.png'' then Some 50
                       else None),
      getsize = (\<lambda>p. if p = ''A/a.png'' \<or> p = ''A/b.png'' then Some 7
                      else if p = ''A/c.png'' then Some 3
                      else None),
      image_open = (\<lambda>p. if p = ''A/a.png'' then Some demo_image
                         else if p = ''A/b.png'' \<or> p = ''A/c.png'' then Some demo_rgb
                         else None),
      exif_transpose = (\<lambda>img. img)\<rparr>"

definition superscript_name :: string where
  \<comment> \<open>a file name of six characters: the superscript two (U+00B2), then \<^verbatim>\<open>1.png\<close>\<close>
  "superscript_name = char_of (178 :: nat) # ''1.png''"

definition superscript_fs :: filesystem where
  \<comment> \<open>one directory \<open>A\<close> that holds \<open>a.png\<close> and the image named \<open>superscript_name\<close>\<close>
  "superscript_fs =
     \<lparr>isdir = (\<lambda>p. p = ''A''),
      isfile = (\<lambda>p. p = ''A/a.png'' \<or> p = join ''A'' superscript_name),
      listdir = (\<lambda>p. if p = ''A'' then Some [''a.png'', superscript_name] else None),
      getmtime = (\<lambda>p. if p = ''A/a.png'' \<or> p = join ''A'' superscript_name then Some 100
                       else None),
      getsize = (\<lambda>p. if p = ''A/a.png'' then Some 7
                      else if p = join ''A'' superscript_name then Some 9
                      else None),
      image_open = (\<lambda>p. if p = ''A/a.png'' \<or> p = join ''A'' superscript_name
                         then Some demo_rgb else None),
      exif_transpose = (\<lambda>img. img)\<rparr>"

declare skip_dots.simps [simp del]

section \<open>Basic facts\<close>

lemma getitem_in_range:
  "0 \<le> i \<Longrightarrow> i < int (length xs) \<Longrightarrow> getitem xs i = Inr (xs ! nat i)"
  by (simp add: getitem_def)

lemma demo_scan:
  "scan_dirs demo_fs (parse_directories demo_fs ''A; B ;C'') [] = Inr [''A/a.png'', ''B/b.jpg'']"
  by code_simp

lemma demo_sort_newest:
  "sort_files demo_fs [''A/a.png'', ''B/b.jpg''] ''Date (Newest First)''
     = Inr [''A/a.png'', ''B/b.jpg'']"
  by code_simp

lemma demo_open:
  "image_open demo_fs ''B/b.jpg'' = Some demo_rgb"
  "image_open demo_fs ''A/a.png'' = Some demo_image"
  "exif_transpose demo_fs img = img"
  by (simp_all add: demo_fs_def)

lemma load_image_Inr:
  assumes "load_image fs directory file_number sort_by = Inr out"
  obtains found image_files opened where
    "scan_dirs fs (parse_directories fs directory) [] = Inr found"
    "sort_files fs found sort_by = Inr image_files"
    "image_files \<noteq> []"
    "image_path out = image_files ! nat (clamp_index file_number (int (length image_files)))"
    "image_open fs (image_path out) = Some opened"
    "out = \<lparr>tensor_image = unsqueeze0 (np_image (exif_transpose fs opened)),
            mask_tensor = unsqueeze0 (make_mask (exif_transpose fs opened)),
            image_path = image_path out,
            filename = basename (image_path out),
            filename_no_ext = fst (splitext (basename (image_path out))),
            file_count = int (length image_files)\<rparr>"
proof -
  from assms obtain found where f: "scan_dirs fs (parse_directories fs directory) [] = Inr found"
    by (auto simp: load_image_def split: sum.splits)
  from assms f obtain image_files where s: "sort_files fs found sort_by = Inr image_files"
    by (auto simp: load_image_def split: sum.splits)
  from assms f s have ne: "image_files \<noteq> []"
    by (auto simp: load_image_def Let_def split: if_splits)
  define i where "i = clamp_index file_number (int (length image_files))"
  have "0 \<le> i" "i < int (length image_files)"
    using ne by (auto simp: i_def clamp_index_def)
  then have g: "getitem image_files i = Inr (image_files ! nat i)"
    by (rule getitem_in_range)
  from assms f s ne g obtain opened where
    o: "image_open fs (image_files ! nat i) = Some opened"
    and out: "out = \<lparr>tensor_image = unsqueeze0 (np_image (exif_transpose fs opened)),
            mask_tensor = unsqueeze0 (make_mask (exif_transpose fs opened)),
            image_path = image_files ! nat i,
            filename = basename (image_files ! nat i),
            filename_no_ext = fst (splitext (basename (image_files ! nat i))),
            file_count = int (length image_files)\<rparr>"
    by (auto simp: load_image_def Let_def i_def split: option.splits)
  have p: "image_path out = image_files ! nat i" by (simp add: out)
  show thesis
    by (rule that [OF f s ne]) (use p o out in \<open>simp_all add: i_def\<close>)
qed

subsection \<open>Rounding to 32-bit floats\<close>

lemma round_half_even_error: "\<bar>of_int (round_half_even r) - r\<bar> \<le> 1 / 2"
proof -
  have "of_int \<lfloor>r\<rfloor> \<le> r" "r < of_int \<lfloor>r\<rfloor> + 1" by linarith+
  then show ?thesis
    unfolding round_half_even_def Let_def
    by (simp add: abs_if; linarith)
qed

lemma f32_round_error: "\<bar>f32_round x - x\<bar> \<le> 1 / 2 ^ 24"
proof (cases "x = 0")
  case True
  then show ?thesis by (simp add: f32_round_def)
next
  case False
  define k where "k = f32_exponent 126 x"
  define q :: rat where "q = 1 / 2 ^ (23 + k)"
  have qpos: "0 < q" by (simp add: q_def)
  have "(2::rat) ^ 23 \<le> 2 ^ (23 + k)"
    by (rule power_increasing) simp_all
  then have qle: "q \<le> 1 / 2 ^ 23"
    unfolding q_def by (intro frac_le) simp_all
  have eq: "f32_round x - x = q * (of_int (round_half_even (x / q)) - x / q)"
    using False qpos by (simp add: f32_round_def Let_def k_def q_def algebra_simps)
  have "\<bar>f32_round x - x\<bar> = q * \<bar>of_int (round_half_even (x / q)) - x / q\<bar>"
    unfolding eq using qpos by (simp add: abs_mult)
  also have "\<dots> \<le> q * (1 / 2)"
    using round_half_even_error [of "x / q"] qpos by (simp add: mult_left_mono)
  also have "\<dots> \<le> (1 / 2 ^ 23) * (1 / 2)"
    using qle by simp
  finally show ?thesis by simp
qed

lemma mask_value_error:
  "\<bar>f32_round (1 - byte_to_unit b) - (1 - of_nat (unat b) / 255)\<bar> \<le> 1 / 2 ^ 23"
proof -
  have a: "\<bar>byte_to_unit b - of_nat (unat b) / 255\<bar> \<le> 1 / 2 ^ 24"
    unfolding byte_to_unit_def by (rule f32_round_error)
  have b: "\<bar>f32_round (1 - byte_to_unit b) - (1 - byte_to_unit b)\<bar> \<le> 1 / 2 ^ 24"
    by (rule f32_round_error)
  have c: "(1::rat) / 2 ^ 23 = 1 / 2 ^ 24 + 1 / 2 ^ 24" by simp
  from a b show ?thesis unfolding c by linarith
qed

lemma demo_mask_values:
  "map (\<lambda>b. f32_round (1 - byte_to_unit b)) [0, 128, 255] = [1, 8355711 / 16777216, 0]"
  by code_simp

lemma endswith_iff: "endswith s suf \<longleftrightarrow> (\<exists>stem. s = stem @ suf)"
proof
  assume "endswith s suf"
  then have "s = take (length s - length suf) s @ suf"
    by (metis append_take_drop_id endswith_def)
  then show "\<exists>stem. s = stem @ suf" ..
next
  assume "\<exists>stem. s = stem @ suf"
  then show "endswith s suf" by (auto simp: endswith_def)
qed

lemma has_valid_extension_iff:
  "has_valid_extension name \<longleftrightarrow>
     (\<exists>e \<in> set valid_extensions. \<exists>stem. str_lower name = stem @ e)"
  by (simp add: has_valid_extension_def endswith_any_def list_ex_iff endswith_iff)

lemma scan_names_eq:
  "scan_names d names acc = acc @ map (join d) (filter has_valid_extension names)"
  by (induction names arbitrary: acc) (simp_all add: has_valid_extension_def)

lemma scan_dirs_None:
  "\<exists>d \<in> set dirs. listdir fs d = None \<Longrightarrow> scan_dirs fs dirs acc = Inl OSError"
  by (induction dirs arbitrary: acc) (auto split: option.splits)

lemma scan_dirs_Some:
  "\<forall>d \<in> set dirs. listdir fs d \<noteq> None \<Longrightarrow>
   scan_dirs fs dirs acc =
     Inr (acc @ concat (map (\<lambda>d. map (join d) (filter has_valid_extension (the (listdir fs d)))) dirs))"
  by (induction dirs arbitrary: acc) (auto simp: scan_names_eq)

lemma split_on_nonempty: "split_on sep s \<noteq> []"
  by (induction s) (auto split: list.splits)

lemma split_on_concat: "concat (map (\<lambda>w. w @ [sep]) (split_on sep s)) = s @ [sep]"
  by (induction s) (auto split: list.splits simp: split_on_nonempty)

lemma split_on_no_sep: "w \<in> set (split_on sep s) \<Longrightarrow> sep \<notin> set w"
  by (induction s arbitrary: w) (auto split: list.splits if_splits)

lemma strip_decompose:
  "\<exists>l r. w = l @ strip w @ r \<and> list_all is_space l \<and> list_all is_space r"
proof -
  define m where "m = dropWhile is_space w"
  have 1: "w = takeWhile is_space w @ m" by (simp add: m_def)
  have "rev m = takeWhile is_space (rev m) @ dropWhile is_space (rev m)" by simp
  then have "m = rev (dropWhile is_space (rev m)) @ rev (takeWhile is_space (rev m))"
    by (metis rev_append rev_rev_ident)
  then have 2: "m = strip w @ rev (takeWhile is_space (rev m))"
    by (simp add: strip_def m_def)
  have 3: "list_all is_space (takeWhile is_space w)"
    by (simp add: list_all_iff) (meson set_takeWhileD)
  have 4: "list_all is_space (rev (takeWhile is_space (rev m)))"
    by (simp add: list_all_iff) (meson set_takeWhileD)
  from 1 2 3 4 show ?thesis by (metis append.assoc)
qed

lemma strip_ends:
  "strip w = [] \<or> (\<not> is_space (hd (strip w)) \<and> \<not> is_space (last (strip w)))"
proof (cases "strip w = []")
  case True then show ?thesis by simp
next
  case False
  define m where "m = dropWhile is_space w"
  have s: "strip w = rev (dropWhile is_space (rev m))" by (simp add: strip_def m_def)
  from False s have ne: "dropWhile is_space (rev m) \<noteq> []" by simp
  then have l: "\<not> is_space (last (strip w))"
    unfolding s by (simp add: last_rev hd_dropWhile)
  have "m = strip w @ rev (takeWhile is_space (rev m))"
    unfolding s by (metis rev_append rev_rev_ident takeWhile_dropWhile_id)
  with False have "hd m = hd (strip w)" "m \<noteq> []" by (metis hd_append2, auto)
  then have "\<not> is_space (hd (strip w))"
    unfolding m_def by (metis hd_dropWhile)
  with l show ?thesis by simp
qed

lemma demo_scan_AB:
  "scan_dirs demo_fs (parse_directories demo_fs ''A;B'') [] = Inr [''A/a.png'', ''B/b.jpg'']"
  by code_simp

subsection \<open>Keys\<close>

lemma part_less_simps [simp]:
  "KInt a < KInt b \<longleftrightarrow> a < b"
  "KText s < KText t \<longleftrightarrow> s < t"
  by (auto simp: less_key_part_def)

lemma re_split_digits_Nil:
  "dropWhile (\<lambda>c. \<not> is_decimal c) s = [] \<Longrightarrow> re_split_digits s = [s]"
  by (subst re_split_digits.simps) (simp only: list.case)

lemma re_split_digits_Cons:
  "dropWhile (\<lambda>c. \<not> is_decimal c) s = c # cs \<Longrightarrow>
   re_split_digits s = takeWhile (\<lambda>c. \<not> is_decimal c) s # takeWhile is_decimal (c # cs)
                         # re_split_digits (dropWhile is_decimal cs)"
  by (subst re_split_digits.simps) (simp only: list.case)

lemma re_split_digits_hd:
  assumes "s = [] \<or> \<not> is_decimal (hd s)" and "1 < length (re_split_digits s)"
  shows "hd (re_split_digits s) \<noteq> []"
proof (cases "dropWhile (\<lambda>c. \<not> is_decimal c) s")
  case Nil
  with assms(2) show ?thesis by (simp add: re_split_digits_Nil)
next
  case (Cons c cs)
  then have "s \<noteq> []" by auto
  with assms(1) have "takeWhile (\<lambda>c. \<not> is_decimal c) s \<noteq> []"
    by (cases s) auto
  then show ?thesis by (simp add: re_split_digits_Cons [OF Cons])
qed

lemma re_split_digits_runs: "runs_ok (re_split_digits s)"
proof (induction s rule: re_split_digits.induct)
  case (1 s)
  show ?case
  proof (cases "dropWhile (\<lambda>c. \<not> is_decimal c) s")
    case Nil
    then have "\<forall>c \<in> set s. \<not> is_decimal c" by (simp add: dropWhile_eq_Nil_conv)
    then show ?thesis by (simp add: re_split_digits_Nil [OF Nil])
  next
    case (Cons c cs)
    have d: "is_decimal c"
      using hd_dropWhile [of "\<lambda>c. \<not> is_decimal c" s] Cons by simp
    have t: "\<forall>x \<in> set (takeWhile (\<lambda>c. \<not> is_decimal c) s). \<not> is_decimal x"
      by (auto dest: set_takeWhileD)
    have r: "\<forall>x \<in> set (takeWhile is_decimal cs). is_decimal x"
      by (auto dest: set_takeWhileD)
    have "dropWhile is_decimal cs = [] \<or> \<not> is_decimal (hd (dropWhile is_decimal cs))"
      using hd_dropWhile [of is_decimal cs] by blast
    then have h: "1 < length (re_split_digits (dropWhile is_decimal cs))
        \<longrightarrow> hd (re_split_digits (dropWhile is_decimal cs)) \<noteq> []"
      using re_split_digits_hd by blast
    from 1 [OF Cons] d t r h show ?thesis
      by (simp add: re_split_digits_Cons [OF Cons])
  qed
qed

lemma re_split_digits_concat: "concat (re_split_digits s) = s"
proof (induction s rule: re_split_digits.induct)
  case (1 s)
  show ?case
  proof (cases "dropWhile (\<lambda>c. \<not> is_decimal c) s")
    case Nil
    then show ?thesis by (simp add: re_split_digits_Nil)
  next
    case (Cons c cs)
    have d: "is_decimal c"
      using hd_dropWhile [of "\<lambda>c. \<not> is_decimal c" s] Cons by simp
    have "s = takeWhile (\<lambda>c. \<not> is_decimal c) s @ c # cs"
      using Cons by (metis takeWhile_dropWhile_id)
    also have "c # cs = takeWhile is_decimal (c # cs) @ dropWhile is_decimal cs"
      using d by simp
    finally have "s = takeWhile (\<lambda>c. \<not> is_decimal c) s
                        @ takeWhile is_decimal (c # cs) @ dropWhile is_decimal cs" .
    with 1 [OF Cons] show ?thesis
      by (simp add: re_split_digits_Cons [OF Cons])
  qed
qed

lemma key_of_text_run:
  "\<forall>c \<in> set t. \<not> is_decimal c \<Longrightarrow> key_of_run t = Inr k \<Longrightarrow> k = KText (str_lower t)"
  by (cases t) (auto simp: key_of_run_def py_int_def split: if_splits)

lemma key_of_text_run_error:
  "\<forall>c \<in> set t. \<not> is_decimal c \<Longrightarrow> key_of_run t = Inl e \<Longrightarrow> e = ValueError"
  by (auto simp: key_of_run_def py_int_def split: if_splits)

lemma key_of_run_error: "key_of_run t = Inl e \<Longrightarrow> e = ValueError"
  by (auto simp: key_of_run_def py_int_def split: if_splits)

lemma key_of_digit_run:
  "d \<noteq> [] \<Longrightarrow> \<forall>c \<in> set d. is_decimal c \<Longrightarrow>
   key_of_run d = Inr (KInt (foldl (\<lambda>a c. 10 * a + digit_value c) 0 d))"
  by (auto simp: key_of_run_def py_int_def str_isdigit_def is_digit_char_def list_all_iff)

lemma ascii_digit_decimal: "of_char c < (128 :: nat) \<Longrightarrow> is_digit_char c \<Longrightarrow> is_decimal c"
  by (auto simp: is_digit_char_def)

lemma key_of_ascii_text_run:
  "\<forall>c \<in> set t. \<not> is_decimal c \<Longrightarrow> ascii_only t \<Longrightarrow> key_of_run t = Inr (KText (str_lower t))"
  by (cases t) (auto simp: key_of_run_def str_isdigit_def ascii_only_def dest: ascii_digit_decimal)

lemma collect_map_Inr: "collect (map Inr vs) = Inr vs"
  by (induction vs) simp_all

lemma collect_Inr_iff: "collect rs = Inr vs \<longleftrightarrow> rs = map Inr vs"
proof
  show "collect rs = Inr vs \<Longrightarrow> rs = map Inr vs"
    by (induction rs arbitrary: vs) (auto split: sum.splits)
qed (simp add: collect_map_Inr)

lemma collect_Inl: "collect rs = Inl e \<Longrightarrow> Inl e \<in> set rs"
  by (induction rs) (auto split: sum.splits)

lemma collect_keys_alternating:
  "runs_ok runs \<Longrightarrow> collect (map key_of_run runs) = Inr ks \<Longrightarrow> alternating ks"
proof (induction runs arbitrary: ks rule: runs_ok.induct)
  case (1 t)
  then show ?case
    by (auto split: sum.splits dest: key_of_text_run)
next
  case (2 t d rest)
  then show ?case
    by (auto split: sum.splits dest: key_of_text_run simp: key_of_digit_run)
next
  case 3
  then show ?case by simp
qed

lemma collect_ascii_keys:
  "runs_ok runs \<Longrightarrow> ascii_only (concat runs) \<Longrightarrow> \<exists>ks. collect (map key_of_run runs) = Inr ks"
proof (induction runs rule: runs_ok.induct)
  case (1 t)
  then show ?case by (simp add: key_of_ascii_text_run)
next
  case (2 t d rest)
  then have "ascii_only t" "ascii_only (concat rest)"
    by (auto simp: ascii_only_def)
  with 2 show ?case
    by (auto simp: key_of_ascii_text_run key_of_digit_run)
next
  case 3
  then show ?case by simp
qed

lemma natural_sort_key_alternating: "natural_sort_key p = Inr ks \<Longrightarrow> alternating ks"
  unfolding natural_sort_key_def
  by (rule collect_keys_alternating [OF re_split_digits_runs])

lemma natural_sort_key_error: "natural_sort_key p = Inl e \<Longrightarrow> e = ValueError"
  unfolding natural_sort_key_def
  by (auto dest!: collect_Inl key_of_run_error [OF sym])

lemma natural_sort_key_ascii:
  "ascii_only (basename p) \<Longrightarrow> \<exists>ks. natural_sort_key p = Inr ks"
  unfolding natural_sort_key_def
  by (rule collect_ascii_keys [OF re_split_digits_runs]) (simp add: re_split_digits_concat)

lemma list_lt_alternating:
  "alternating a \<Longrightarrow> alternating b \<Longrightarrow> list_lt a b = Inr (a < b)"
proof (induction a arbitrary: b rule: alternating.induct)
  case (1 t)
  then show ?case
    by (cases b rule: alternating.cases) auto
next
  case (2 t n rest)
  from "2.prems" show ?case
  proof (cases b rule: alternating.cases)
    case (1 t')
    then show ?thesis by auto
  next
    case (2 t' n' rest')
    with "2.prems" "2.IH" [of rest'] show ?thesis by auto
  qed auto
qed auto

lemma alternating_places:
  "alternating ks \<Longrightarrow> i < length ks \<Longrightarrow>
     (even i \<longrightarrow> (\<exists>t. ks ! i = KText t)) \<and> (odd i \<longrightarrow> (\<exists>n. ks ! i = KInt n))"
proof (induction ks arbitrary: i rule: alternating.induct)
  case (1 t)
  then show ?case by simp
next
  case (2 t n rest)
  show ?case
  proof (cases i)
    case 0
    then show ?thesis by simp
  next
    case (Suc j)
    show ?thesis
    proof (cases j)
      case 0
      with Suc show ?thesis by simp
    next
      case (Suc k)
      with \<open>i = Suc j\<close> 2 show ?thesis by simp
    qed
  qed
qed auto

lemma alternating_odd_length: "alternating ks \<Longrightarrow> odd (length ks)"
  by (induction ks rule: alternating.induct) auto

subsection \<open>Sorting\<close>

lemma insort_py_total:
  fixes x :: "'k::linorder \<times> 'a"
  assumes "\<forall>y \<in> set ys. lt (fst y) (fst x) = Inr (fst y < fst x)"
  shows "insort_py lt x ys = Inr (insort_key fst x ys)"
  using assms by (induction ys) (auto simp: not_less)

lemma sort_py_total:
  fixes xs :: "('k::linorder \<times> 'a) list"
  assumes "\<forall>x \<in> set xs. \<forall>y \<in> set xs. lt (fst x) (fst y) = Inr (fst x < fst y)"
  shows "sort_py lt xs = Inr (sort_key fst xs)"
  using assms
proof (induction xs)
  case Nil
  then show ?case by simp
next
  case (Cons x xs)
  then have "sort_py lt xs = Inr (sort_key fst xs)" by simp
  moreover have "insort_py lt x (sort_key fst xs) = Inr (insort_key fst x (sort_key fst xs))"
    using Cons.prems by (intro insort_py_total) simp
  ultimately show ?case by simp
qed

lemma insort_key_map:
  "insort_key k (g x) (map g ys) = map g (insort_key (k \<circ> g) x ys)"
  by (induction ys) simp_all

lemma sort_key_map: "sort_key k (map g xs) = map g (sort_key (k \<circ> g) xs)"
  by (induction xs) (simp_all add: insort_key_map comp_def)

lemma sort_key_zip: "map snd (sort_key fst (zip (map f xs) xs)) = sort_key f xs"
proof -
  have "zip (map f xs) xs = map (\<lambda>x. (f x, x)) xs"
    by (induction xs) simp_all
  then show ?thesis
    by (simp add: sort_key_map comp_def)
qed

lemma sorted_py_total:
  fixes f :: "'a \<Rightarrow> 'k::linorder"
  assumes keys: "\<forall>x \<in> set xs. key x = Inr (f x)"
    and cmp: "\<forall>x \<in> set xs. \<forall>y \<in> set xs. lt (f x) (f y) = Inr (f x < f y)"
  shows "sorted_py lt key reverse xs =
           Inr (if reverse then rev (sort_key f (rev xs)) else sort_key f xs)"
proof -
  have c: "collect (map key xs) = Inr (map f xs)"
    using keys by (simp add: collect_Inr_iff)
  have z: "fst p \<in> f ` set xs" if "p \<in> set (zip (map f xs) xs)" for p
    using that set_zip_leftD [of "fst p" "snd p" "map f xs" xs] by simp
  have zc: "lt (fst p) (fst q) = Inr (fst p < fst q)"
    if "p \<in> set (zip (map f xs) xs)" "q \<in> set (zip (map f xs) xs)" for p q
  proof -
    from z [OF that(1)] obtain x where x: "x \<in> set xs" "fst p = f x" by auto
    from z [OF that(2)] obtain y where y: "y \<in> set xs" "fst q = f y" by auto
    from cmp x(1) y(1) have "lt (f x) (f y) = Inr (f x < f y)" by simp
    then show ?thesis by (simp add: x y)
  qed
  have s1: "sort_py lt (zip (map f xs) xs) = Inr (sort_key fst (zip (map f xs) xs))"
    by (rule sort_py_total) (simp add: zc)
  have "rev (zip (map f xs) xs) = zip (rev (map f xs)) (rev xs)"
    by (rule zip_rev [symmetric]) simp
  then have r: "rev (zip (map f xs) xs) = zip (map f (rev xs)) (rev xs)"
    by (simp only: rev_map)
  have s2: "sort_py lt (rev (zip (map f xs) xs)) = Inr (sort_key fst (rev (zip (map f xs) xs)))"
    by (rule sort_py_total) (simp add: zc)
  have "map snd (rev (sort_key fst (zip (map f (rev xs)) (rev xs))))
          = rev (map snd (sort_key fst (zip (map f (rev xs)) (rev xs))))"
    by (rule rev_map [symmetric])
  then have s3: "map snd (rev (sort_key fst (zip (map f (rev xs)) (rev xs))))
                   = rev (sort_key f (rev xs))"
    by (simp only: sort_key_zip)
  show ?thesis
    using c s1 s2 by (simp add: sorted_py_def sort_key_zip r s3)
qed

lemma sorted_py_key_error:
  assumes "\<exists>x \<in> set xs. isl (key x)"
  shows "\<exists>x \<in> set xs. \<exists>e. key x = Inl e \<and> sorted_py lt key reverse xs = Inl e"
proof -
  have "\<exists>e. collect (map key xs) = Inl e"
  proof (cases "collect (map key xs)")
    case (Inr ks)
    then have "map key xs = map Inr ks" by (simp add: collect_Inr_iff)
    then have "\<forall>r \<in> set (map key xs). \<not> isl r" by auto
    with assms show ?thesis by auto
  qed auto
  then obtain e where e: "collect (map key xs) = Inl e" ..
  then obtain x where "x \<in> set xs" "key x = Inl e"
    by (auto dest!: collect_Inl)
  moreover have "sorted_py lt key reverse xs = Inl e"
    using e by (simp add: sorted_py_def)
  ultimately show ?thesis by blast
qed

lemma sorted_py_cases:
  fixes key :: "'a \<Rightarrow> error + 'k::linorder"
  assumes cmp: "\<forall>x \<in> set xs. \<forall>y \<in> set xs. \<forall>a b. key x = Inr a \<longrightarrow> key y = Inr b
                   \<longrightarrow> lt a b = Inr (a < b)"
  shows "(\<exists>x \<in> set xs. \<exists>e. key x = Inl e \<and> sorted_py lt key reverse xs = Inl e)
       \<or> ((\<forall>x \<in> set xs. \<not> isl (key x))
          \<and> sorted_py lt key reverse xs =
              Inr (if reverse then rev (sort_key (projr \<circ> key) (rev xs))
                   else sort_key (projr \<circ> key) xs))"
proof (cases "\<exists>x \<in> set xs. isl (key x)")
  case True
  from sorted_py_key_error [OF this] show ?thesis by blast
next
  case False
  then have k: "\<forall>x \<in> set xs. key x = Inr ((projr \<circ> key) x)"
    by (simp add: sum.expand)
  have "lt ((projr \<circ> key) x) ((projr \<circ> key) y) = Inr ((projr \<circ> key) x < (projr \<circ> key) y)"
    if "x \<in> set xs" "y \<in> set xs" for x y
  proof -
    from k that have "key x = Inr ((projr \<circ> key) x)" "key y = Inr ((projr \<circ> key) y)"
      by blast+
    with cmp that show ?thesis by blast
  qed
  then have "\<forall>x \<in> set xs. \<forall>y \<in> set xs.
          lt ((projr \<circ> key) x) ((projr \<circ> key) y) = Inr ((projr \<circ> key) x < (projr \<circ> key) y)"
    by blast
  from sorted_py_total [OF k this, of reverse] False show ?thesis by simp
qed

lemma natural_keys_compare:
  "\<forall>x \<in> set xs. \<forall>y \<in> set xs. \<forall>a b. natural_sort_key x = Inr a \<longrightarrow> natural_sort_key y = Inr b
      \<longrightarrow> list_lt a b = Inr (a < b)"
  by (simp add: list_lt_alternating natural_sort_key_alternating)

lemma sorted_py_stable:
  fixes key :: "'a \<Rightarrow> error + 'k::linorder"
  assumes cmp: "\<forall>x \<in> set xs. \<forall>y \<in> set xs. \<forall>a b. key x = Inr a \<longrightarrow> key y = Inr b
                   \<longrightarrow> lt a b = Inr (a < b)"
    and res: "sorted_py lt key reverse xs = Inr ys"
  shows "filter (\<lambda>y. key y = k) ys = filter (\<lambda>y. key y = k) xs"
proof -
  define f where "f = projr \<circ> key"
  from sorted_py_cases [OF cmp, of reverse] res
  have ok: "\<forall>x \<in> set xs. \<not> isl (key x)"
    and ys: "ys = (if reverse then rev (sort_key f (rev xs)) else sort_key f xs)"
    by (auto simp: f_def)
  have set: "set ys = set xs" by (simp add: ys)
  show ?thesis
  proof (cases k)
    case (Inl e)
    have "filter (\<lambda>y. key y = k) ys = []" "filter (\<lambda>y. key y = k) xs = []"
      using ok set Inl by (auto simp: filter_empty_conv)
    then show ?thesis by simp
  next
    case (Inr v)
    have eq: "key y = k \<longleftrightarrow> f y = v" if "y \<in> set xs" for y
      using ok that Inr by (cases "key y") (auto simp: f_def)
    have "filter (\<lambda>y. key y = k) ys = filter (\<lambda>y. f y = v) ys"
      using eq set by (intro filter_cong) auto
    also have "\<dots> = filter (\<lambda>y. f y = v) xs"
    proof (cases reverse)
      case True
      have "filter (\<lambda>y. f y = v) (rev (sort_key f (rev xs)))
              = rev (filter (\<lambda>y. f y = v) (sort_key f (rev xs)))"
        by (rule rev_filter [symmetric])
      also have "\<dots> = rev (filter (\<lambda>y. f y = v) (rev xs))"
        by (simp only: sort_key_stable)
      also have "\<dots> = filter (\<lambda>y. f y = v) xs"
        by (simp add: rev_filter)
      finally show ?thesis using True by (simp add: ys)
    next
      case False
      then show ?thesis by (simp add: ys sort_key_stable)
    qed
    also have "\<dots> = filter (\<lambda>y. key y = k) xs"
      using eq by (intro filter_cong) auto
    finally show ?thesis .
  qed
qed

lemma stat_eq_iff: "stat a = stat b \<longleftrightarrow> a = b"
  by (cases a; cases b) (simp_all add: stat_def)

lemma ties_alt:
  "ties fs m x =
     (\<lambda>y. if m = ''Filename'' then natural_sort_key y = natural_sort_key x
          else if m = ''Date (Newest First)'' \<or> m = ''Date (Oldest First)''
          then stat (getmtime fs y) = stat (getmtime fs x)
          else if m = ''FileSize'' then stat (getsize fs y) = stat (getsize fs x)
          else True)"
proof (rule ext)
  fix y
  have a: "(natural_sort_key y = natural_sort_key x) = (natural_sort_key x = natural_sort_key y)"
    by (rule eq_commute)
  have b: "(stat (getmtime fs y) = stat (getmtime fs x)) = (getmtime fs x = getmtime fs y)"
    unfolding stat_eq_iff by (rule eq_commute)
  have c: "(stat (getsize fs y) = stat (getsize fs x)) = (getsize fs x = getsize fs y)"
    unfolding stat_eq_iff by (rule eq_commute)
  show "ties fs m x y =
     (if m = ''Filename'' then natural_sort_key y = natural_sort_key x
          else if m = ''Date (Newest First)'' \<or> m = ''Date (Oldest First)''
          then stat (getmtime fs y) = stat (getmtime fs x)
          else if m = ''FileSize'' then stat (getsize fs y) = stat (getsize fs x)
          else True)"
    unfolding ties_def a b c ..
qed

lemma sort_files_set:
  assumes "sort_files fs files m = Inr ys"
  shows "mset ys = mset files"
proof -
  have g: "mset zs = mset files"
    if "sorted_py lt key r files = Inr zs"
      and "\<forall>x \<in> set files. \<forall>y \<in> set files. \<forall>a b. key x = Inr a \<longrightarrow> key y = Inr b
                   \<longrightarrow> lt a b = Inr (a < b)"
    for lt and key :: "string \<Rightarrow> error + 'k::linorder" and r zs
    using sorted_py_cases [OF that(2), of r] that(1) by (auto split: if_splits)
  show ?thesis
    using assms natural_keys_compare [of files]
    by (auto simp: sort_files_def split: if_splits intro!: g)
qed

lemma superscript_name_key: "natural_sort_key superscript_name = Inl ValueError"
  by code_simp

lemma key_of_run_Inr:
  assumes "key_of_run run = Inr k"
  shows "k = (if run \<noteq> [] \<and> list_all is_decimal run
              then KInt (foldl (\<lambda>a c. 10 * a + digit_value c) 0 run)
              else KText (str_lower run))"
proof (cases "run \<noteq> [] \<and> list_all is_decimal run")
  case True
  then have "key_of_run run = Inr (KInt (foldl (\<lambda>a c. 10 * a + digit_value c) 0 run))"
    by (intro key_of_digit_run) (simp_all add: list_all_iff)
  with assms True show ?thesis by simp
next
  case False
  with assms show ?thesis
    by (auto simp: key_of_run_def py_int_def split: if_splits sum.splits)
qed

lemma natural_sort_key_runs:
  assumes "natural_sort_key p = Inr ks"
  shows "list_all2 (\<lambda>run k. k = (if run \<noteq> [] \<and> list_all is_decimal run
                                  then KInt (foldl (\<lambda>a c. 10 * a + digit_value c) 0 run)
                                  else KText (str_lower run)))
           (re_split_digits (basename p)) ks"
proof -
  from assms have m: "map key_of_run (re_split_digits (basename p)) = map Inr ks"
    by (simp add: natural_sort_key_def collect_Inr_iff)
  then have len: "length (re_split_digits (basename p)) = length ks"
    by (metis length_map)
  show ?thesis
  proof (rule list_all2_all_nthI [OF len])
    fix i assume i: "i < length (re_split_digits (basename p))"
    from m have "map key_of_run (re_split_digits (basename p)) ! i = map Inr ks ! i" by simp
    with i len have "key_of_run (re_split_digits (basename p) ! i) = Inr (ks ! i)" by simp
    then show "ks ! i = (if re_split_digits (basename p) ! i \<noteq> []
                            \<and> list_all is_decimal (re_split_digits (basename p) ! i)
        then KInt (foldl (\<lambda>a c. 10 * a + digit_value c) 0 (re_split_digits (basename p) ! i))
        else KText (str_lower (re_split_digits (basename p) ! i)))"
      by (rule key_of_run_Inr)
  qed
qed

lemma sort_files_Filename:
  assumes "sort_files fs files ''Filename'' = Inr ys"
  shows "\<forall>x \<in> set files. \<exists>k. natural_sort_key x = Inr k"
    and "ys = sort_key (projr \<circ> natural_sort_key) files"
proof -
  from assms have s: "sorted_py list_lt natural_sort_key False files = Inr ys"
    by (simp add: sort_files_def)
  from sorted_py_cases [OF natural_keys_compare, of files False] s
  have a: "\<forall>x \<in> set files. \<not> isl (natural_sort_key x)"
    and b: "ys = sort_key (projr \<circ> natural_sort_key) files"
    by auto
  from b show "ys = sort_key (projr \<circ> natural_sort_key) files" .
  from a show "\<forall>x \<in> set files. \<exists>k. natural_sort_key x = Inr k"
    by (metis sum.collapse(2))
qed

lemma sort_files_Filename_total:
  assumes "\<forall>x \<in> set files. \<exists>k. natural_sort_key x = Inr k"
  shows "sort_files fs files ''Filename'' = Inr (sort_key (projr \<circ> natural_sort_key) files)"
proof -
  from assms have "\<not> (\<exists>x \<in> set files. \<exists>e. natural_sort_key x = Inl e)" by auto
  with sorted_py_cases [OF natural_keys_compare, of files False]
  show ?thesis by (auto simp: sort_files_def)
qed

lemma sort_files_Filename_sorted:
  assumes "sort_files fs files ''Filename'' = Inr ys"
  shows "sorted_wrt (\<lambda>a b. \<exists>ka kb. natural_sort_key a = Inr ka \<and> natural_sort_key b = Inr kb
                              \<and> list_lt kb ka = Inr False) ys"
proof -
  define f where "f = projr \<circ> natural_sort_key"
  note k = sort_files_Filename [OF assms]
  have ys: "ys = sort_key f files" using k(2) by (simp add: f_def)
  have "sorted (map f ys)" unfolding ys by simp
  then have s: "sorted_wrt (\<lambda>a b. f a \<le> f b) ys" by (simp add: sorted_map)
  have set: "set ys = set files" by (simp add: ys)
  show ?thesis
  proof (rule sorted_wrt_mono_rel [OF _ s])
    fix a b assume ab: "a \<in> set ys" "b \<in> set ys" "f a \<le> f b"
    from ab set k(1) obtain ka kb where
      ka: "natural_sort_key a = Inr ka" and kb: "natural_sort_key b = Inr kb" by blast
    have "list_lt kb ka = Inr (kb < ka)"
      using ka kb by (intro list_lt_alternating natural_sort_key_alternating)
    moreover have "\<not> kb < ka" using ab(3) ka kb by (simp add: f_def)
    ultimately show "\<exists>ka kb. natural_sort_key a = Inr ka \<and> natural_sort_key b = Inr kb
                              \<and> list_lt kb ka = Inr False"
      using ka kb by simp
  qed
qed

lemma example_names_sorted:
  "sorted_py list_lt natural_sort_key False [''file2.jpg'', ''file10.jpg'', ''file1.jpg'']
     = Inr [''file1.jpg'', ''file2.jpg'', ''file10.jpg'']"
  by code_simp

subsection \<open>Paths\<close>

lemma rfind_none: "c \<notin> set s \<Longrightarrow> rfind c s = - 1"
  by (simp add: rfind_def)

lemma rfind_split:
  assumes "c \<in> set s"
  shows "\<exists>pre post. s = pre @ c # post \<and> c \<notin> set post \<and> rfind c s = int (length pre)"
proof -
  define t where "t = takeWhile (\<lambda>x. x \<noteq> c) (rev s)"
  define u where "u = dropWhile (\<lambda>x. x \<noteq> c) (rev s)"
  have r: "rev s = t @ u" by (simp add: t_def u_def)
  have "u \<noteq> []" using assms by (simp add: u_def dropWhile_eq_Nil_conv)
  moreover have "u \<noteq> [] \<Longrightarrow> hd u = c"
    using hd_dropWhile [of "\<lambda>x. x \<noteq> c" "rev s"] by (simp add: u_def)
  ultimately obtain v where u: "u = c # v" by (cases u) auto
  have s: "s = rev v @ c # rev t"
    using r u by (metis append.assoc append_Cons append_Nil rev.simps(2) rev_append rev_rev_ident)
  have nt: "c \<notin> set (rev t)"
    by (auto simp: t_def dest: set_takeWhileD)
  have "length s = length v + 1 + length t" by (subst s) simp
  then have "rfind c s = int (length (rev v))"
    using assms by (simp add: rfind_def t_def [symmetric])
  with s nt show ?thesis by blast
qed

lemma basename_last_component:
  "CHR ''/'' \<notin> set (basename p)
   \<and> (\<exists>pre. p = pre @ basename p \<and> (pre = [] \<or> last pre = CHR ''/''))"
proof (cases "CHR ''/'' \<in> set p")
  case False
  then show ?thesis by (simp add: basename_def rfind_none)
next
  case True
  from rfind_split [OF this] obtain pre post where
    p: "p = pre @ CHR ''/'' # post" and n: "CHR ''/'' \<notin> set post"
    and r: "rfind CHR ''/'' p = int (length pre)" by blast
  have "nat (rfind CHR ''/'' p + 1) = length (pre @ ''/'')" by (simp add: r)
  then have b: "basename p = post"
    unfolding basename_def by (subst (2) p) simp
  have "p = (pre @ ''/'') @ post" by (simp add: p)
  with b n show ?thesis by (metis last_snoc)
qed

lemma skip_dots_iff:
  "skip_dots p i d \<longleftrightarrow> (\<exists>j. i \<le> j \<and> j < d \<and> take 1 (drop j p) \<noteq> ''.'')"
proof (induction p i d rule: skip_dots.induct)
  case (1 p i d)
  show ?case
  proof (cases "i < d")
    case False
    then show ?thesis by (subst skip_dots.simps) auto
  next
    case True
    show ?thesis
    proof (cases "take 1 (drop i p) \<noteq> ''.''")
      case t: True
      with True show ?thesis by (subst skip_dots.simps) auto
    next
      case f: False
      with True 1 have "skip_dots p i d
          \<longleftrightarrow> (\<exists>j. i + 1 \<le> j \<and> j < d \<and> take 1 (drop j p) \<noteq> ''.'')"
        by (subst skip_dots.simps) simp
      also have "\<dots> \<longleftrightarrow> (\<exists>j. i \<le> j \<and> j < d \<and> take 1 (drop j p) \<noteq> ''.'')"
        using f by (metis Suc_eq_plus1 Suc_leD Suc_leI le_neq_implies_less)
      finally show ?thesis .
    qed
  qed
qed

lemma splitext_name:
  assumes "CHR ''/'' \<notin> set name"
  shows "\<exists>ext. name = fst (splitext name) @ ext
           \<and> (ext = [] \<and> (\<exists>n rest. name = replicate n (CHR ''.'') @ rest \<and> CHR ''.'' \<notin> set rest)
              \<or> (\<exists>e. ext = CHR ''.'' # e \<and> CHR ''.'' \<notin> set e
                    \<and> (\<exists>c \<in> set (fst (splitext name)). c \<noteq> CHR ''.'')))"
proof (cases "CHR ''.'' \<in> set name")
  case False
  then have "splitext name = (name, [])"
    using assms by (simp add: splitext_def rfind_none)
  moreover have "name = replicate 0 (CHR ''.'') @ name" by simp
  ultimately show ?thesis using False by (metis append_Nil2 fst_conv)
next
  case True
  from rfind_split [OF this] obtain pre post where
    p: "name = pre @ CHR ''.'' # post" and n: "CHR ''.'' \<notin> set post"
    and r: "rfind CHR ''.'' name = int (length pre)" by blast
  have sd: "skip_dots name 0 (length pre) \<longleftrightarrow> (\<exists>c \<in> set pre. c \<noteq> CHR ''.'')"
  proof -
    have "take 1 (drop j name) = [pre ! j]" if "j < length pre" for j
    proof -
      have "drop j pre = pre ! j # drop (Suc j) pre"
        using that by (simp add: Cons_nth_drop_Suc)
      with that show ?thesis by (simp add: p)
    qed
    then have "skip_dots name 0 (length pre) \<longleftrightarrow> (\<exists>j < length pre. pre ! j \<noteq> CHR ''.'')"
      unfolding skip_dots_iff by auto
    also have "\<dots> \<longleftrightarrow> (\<exists>c \<in> set pre. c \<noteq> CHR ''.'')"
      by (metis in_set_conv_nth)
    finally show ?thesis .
  qed
  have sep: "rfind CHR ''/'' name = - 1" using assms by (rule rfind_none)
  have tk: "take (length pre) name = pre" "drop (length pre) name = CHR ''.'' # post"
    by (simp_all add: p)
  have se: "splitext name = (if \<exists>c \<in> set pre. c \<noteq> CHR ''.'' then (pre, CHR ''.'' # post)
                             else (name, []))"
    unfolding splitext_def sep r Let_def by (simp add: sd tk)
  show ?thesis
  proof (cases "\<exists>c \<in> set pre. c \<noteq> CHR ''.''")
    case True
    with se have "splitext name = (pre, CHR ''.'' # post)" by simp
    with p n True show ?thesis by auto
  next
    case False
    then have "pre = replicate (length pre) (CHR ''.'')"
      by (metis replicate_length_same)
    then have "name = replicate (Suc (length pre)) (CHR ''.'') @ post"
      using p by (metis append.assoc append_Cons append_Nil replicate_Suc replicate_app_Cons_same)
    moreover from se False have "splitext name = (name, [])" by simp
    ultimately show ?thesis using n by (metis append_Nil2 fst_conv)
  qed
qed

subsection \<open>Errors\<close>

lemma scan_dirs_Inl:
  assumes "scan_dirs fs dirs acc = Inl e"
  shows "e = OSError \<and> (\<exists>d \<in> set dirs. listdir fs d = None)"
proof (cases "\<exists>d \<in> set dirs. listdir fs d = None")
  case True
  with scan_dirs_None [OF True] assms show ?thesis by simp
next
  case False
  then have "\<forall>d \<in> set dirs. listdir fs d \<noteq> None" by simp
  from scan_dirs_Some [OF this] assms show ?thesis by simp
qed

lemma stat_Inl: "stat r = Inl e \<Longrightarrow> r = None \<and> e = OSError"
  by (cases r) (simp_all add: stat_def)

lemma sorted_py_Inl:
  fixes key :: "'a \<Rightarrow> error + 'k::linorder"
  assumes "\<forall>x \<in> set xs. \<forall>y \<in> set xs. \<forall>a b. key x = Inr a \<longrightarrow> key y = Inr b
                   \<longrightarrow> lt a b = Inr (a < b)"
    and "sorted_py lt key reverse xs = Inl e"
  shows "\<exists>x \<in> set xs. key x = Inl e"
  using sorted_py_cases [OF assms(1), of reverse] assms(2) by auto

lemma sort_files_Inl:
  assumes "sort_files fs files m = Inl e"
  shows "(m = ''Filename'' \<and> e = ValueError \<and> (\<exists>c \<in> set files. natural_sort_key c = Inl ValueError))
       \<or> ((m = ''Date (Newest First)'' \<or> m = ''Date (Oldest First)'') \<and> e = OSError
            \<and> (\<exists>c \<in> set files. getmtime fs c = None))
       \<or> (m = ''FileSize'' \<and> e = OSError \<and> (\<exists>c \<in> set files. getsize fs c = None))"
proof -
  consider (name) "m = ''Filename''"
    | (newest) "m = ''Date (Newest First)''"
    | (oldest) "m = ''Date (Oldest First)''"
    | (size) "m = ''FileSize''"
    | (other) "m \<noteq> ''Filename''" "m \<noteq> ''Date (Newest First)''"
        "m \<noteq> ''Date (Oldest First)''" "m \<noteq> ''FileSize''"
    by blast
  then show ?thesis
  proof cases
    case name
    with assms have "sorted_py list_lt natural_sort_key False files = Inl e"
      by (simp add: sort_files_def)
    from sorted_py_Inl [OF natural_keys_compare this] obtain c where
      c: "c \<in> set files" "natural_sort_key c = Inl e" by blast
    from c(2) have "e = ValueError" by (rule natural_sort_key_error)
    with c name show ?thesis by blast
  next
    case newest
    with assms have "sorted_py (\<lambda>a b. Inr (a < b)) (\<lambda>x. stat (getmtime fs x)) True files = Inl e"
      by (simp add: sort_files_def)
    from sorted_py_Inl [OF _ this] obtain c where
      c: "c \<in> set files" "stat (getmtime fs c) = Inl e" by auto
    with stat_Inl [OF c(2)] newest show ?thesis by blast
  next
    case oldest
    with assms have "sorted_py (\<lambda>a b. Inr (a < b)) (\<lambda>x. stat (getmtime fs x)) False files = Inl e"
      by (simp add: sort_files_def)
    from sorted_py_Inl [OF _ this] obtain c where
      c: "c \<in> set files" "stat (getmtime fs c) = Inl e" by auto
    with stat_Inl [OF c(2)] oldest show ?thesis by blast
  next
    case size
    with assms have "sorted_py (\<lambda>a b. Inr (a < b)) (\<lambda>x. stat (getsize fs x)) False files = Inl e"
      by (simp add: sort_files_def)
    from sorted_py_Inl [OF _ this] obtain c where
      c: "c \<in> set files" "stat (getsize fs c) = Inl e" by auto
    with stat_Inl [OF c(2)] size show ?thesis by blast
  next
    case other
    with assms show ?thesis by (simp add: sort_files_def)
  qed
qed

lemma sort_files_Nil: "sort_files fs [] m = Inr []"
  by (simp add: sort_files_def sorted_py_def)

lemma load_image_cases:
  obtains
    (scan) e where "scan_dirs fs (parse_directories fs d) [] = Inl e"
      "load_image fs d n s = Inl e"
  | (sort) found e where "scan_dirs fs (parse_directories fs d) [] = Inr found"
      "sort_files fs found s = Inl e" "load_image fs d n s = Inl e"
  | (none) "scan_dirs fs (parse_directories fs d) [] = Inr []"
      "load_image fs d n s = Inl NoValidImageFiles"
  | (img) found files where "scan_dirs fs (parse_directories fs d) [] = Inr found"
      "found \<noteq> []" "sort_files fs found s = Inr files" "files \<noteq> []"
      "image_open fs (files ! nat (clamp_index n (int (length files)))) = None"
      "load_image fs d n s = Inl ImageError"
  | (ok) found files out where "scan_dirs fs (parse_directories fs d) [] = Inr found"
      "found \<noteq> []" "sort_files fs found s = Inr files" "files \<noteq> []"
      "image_open fs (files ! nat (clamp_index n (int (length files)))) \<noteq> None"
      "load_image fs d n s = Inr out"
proof (cases "scan_dirs fs (parse_directories fs d) []")
  case (Inl e)
  then have "load_image fs d n s = Inl e" by (simp add: load_image_def)
  with Inl show ?thesis by (rule scan)
next
  case found: (Inr found)
  show ?thesis
  proof (cases "sort_files fs found s")
    case (Inl e)
    with found have "load_image fs d n s = Inl e" by (simp add: load_image_def)
    with found Inl show ?thesis by (rule sort)
  next
    case files: (Inr files)
    from sort_files_set [OF files] have m: "mset files = mset found" .
    show ?thesis
    proof (cases "files = []")
      case True
      with m have e: "found = []" by simp
      with found files True have "load_image fs d n s = Inl NoValidImageFiles"
        by (simp add: load_image_def)
      with found e show ?thesis by (intro none) simp_all
    next
      case False
      with m have fne: "found \<noteq> []" by auto
      define i where "i = clamp_index n (int (length files))"
      have "0 \<le> i" "i < int (length files)"
        using False by (auto simp: i_def clamp_index_def)
      then have g: "getitem files i = Inr (files ! nat i)" by (rule getitem_in_range)
      show ?thesis
      proof (cases "image_open fs (files ! nat i)")
        case None
        with found files False g have "load_image fs d n s = Inl ImageError"
          by (simp add: load_image_def Let_def i_def)
        with found files False fne None show ?thesis
          unfolding i_def by (intro img)
      next
        case (Some opened)
        with found files False g obtain out where "load_image fs d n s = Inr out"
          by (simp add: load_image_def Let_def i_def)
        moreover from Some
        have "image_open fs (files ! nat (clamp_index n (int (length files)))) \<noteq> None"
          by (simp add: i_def)
        ultimately show ?thesis
          using found files False fne by (intro ok)
      qed
    qed
  qed
qed

subsection \<open>Listing order\<close>

lemma sort_key_unique:
  fixes f :: "'a \<Rightarrow> 'k::linorder"
  assumes m: "mset xs = mset ys" and inj: "inj_on f (set xs)"
  shows "sort_key f xs = sort_key f ys"
proof (rule properties_for_sort_key)
  show "mset (sort_key f ys) = mset xs" using m by simp
  show "sorted (map f (sort_key f ys))" by simp
  fix k assume "k \<in> set (sort_key f ys)"
  then have ky: "k \<in> set ys" by simp
  have sets: "set xs = set ys" using m by (rule mset_eq_setD)
  have e: "(f x = f k) = (k = x)" "(f k = f x) = (k = x)" if "x \<in> set ys" for x
    using inj that ky sets by (auto dest: inj_onD)
  have "filter (\<lambda>x. f k = f x) (sort_key f ys) = filter (\<lambda>x. f x = f k) (sort_key f ys)"
    by (rule filter_cong) auto
  also have "\<dots> = filter (\<lambda>x. f x = f k) ys" by (rule sort_key_stable)
  also have "\<dots> = filter ((=) k) ys"
    using e(1) by (intro filter_cong) simp_all
  also have "\<dots> = replicate (count (mset ys) k) k"
    by (rule replicate_count_mset_eq_filter_eq [symmetric])
  also have "\<dots> = replicate (count (mset xs) k) k" by (simp add: m)
  also have "\<dots> = filter ((=) k) xs"
    by (rule replicate_count_mset_eq_filter_eq)
  also have "\<dots> = filter (\<lambda>x. f k = f x) xs"
    using e(2) sets by (intro filter_cong) simp_all
  finally show "filter (\<lambda>x. f k = f x) (sort_key f ys) = filter (\<lambda>x. f k = f x) xs" .
qed

lemma scan_dirs_mset:
  assumes perm: "\<And>d. rel_option (\<lambda>a b. mset a = mset b) (listdir fs1 d) (listdir fs2 d)"
    and scan: "scan_dirs fs1 dirs [] = Inr found1"
  shows "\<exists>found2. scan_dirs fs2 dirs [] = Inr found2 \<and> mset found1 = mset found2"
proof -
  have all1: "\<forall>d \<in> set dirs. listdir fs1 d \<noteq> None"
    using scan scan_dirs_None [of dirs fs1 "[]"] by fastforce
  have all2: "\<forall>d \<in> set dirs. listdir fs2 d \<noteq> None"
  proof
    fix d assume "d \<in> set dirs"
    with all1 have "listdir fs1 d \<noteq> None" by simp
    with perm [of d] show "listdir fs2 d \<noteq> None"
      by (cases "listdir fs1 d"; cases "listdir fs2 d") simp_all
  qed
  define g where "g fs d = map (join d) (filter has_valid_extension (the (listdir fs d)))"
    for fs :: filesystem and d
  have f1: "found1 = concat (map (g fs1) dirs)"
    using scan_dirs_Some [OF all1, of "[]"] scan unfolding g_def [abs_def] by simp
  have f2: "scan_dirs fs2 dirs [] = Inr (concat (map (g fs2) dirs))"
    using scan_dirs_Some [OF all2, of "[]"] unfolding g_def [abs_def] by simp
  have each: "mset (g fs1 d) = mset (g fs2 d)" for d
  proof (cases "listdir fs1 d")
    case None
    with perm [of d] have "listdir fs2 d = None" by (cases "listdir fs2 d") simp_all
    with None show ?thesis by (simp add: g_def)
  next
    case (Some a)
    with perm [of d] obtain b where b: "listdir fs2 d = Some b" "mset a = mset b"
      by (cases "listdir fs2 d") simp_all
    have "mset (map (join d) (filter has_valid_extension a))
            = image_mset (join d) (filter_mset has_valid_extension (mset a))"
      by simp
    also have "\<dots> = mset (map (join d) (filter has_valid_extension b))"
      by (simp add: b(2))
    finally show ?thesis by (simp add: g_def Some b(1))
  qed
  have "mset (concat (map (g fs1) ds)) = mset (concat (map (g fs2) ds))" for ds
    by (induction ds) (simp_all add: each)
  with f1 f2 show ?thesis by simp
qed

lemma same_elements_same_list:
  assumes "mset xs = mset ys" and "\<forall>x \<in> set xs. \<forall>y \<in> set xs. x = y"
  shows "xs = ys"
proof (cases xs)
  case Nil
  with assms(1) show ?thesis by simp
next
  case (Cons a as)
  have sets: "set ys = set xs" using assms(1) by (metis mset_eq_setD)
  have len: "length ys = length xs" using assms(1) by (metis mset_eq_length)
  have "\<forall>y \<in> set xs. y = a" using assms(2) Cons by simp
  then have "replicate (length xs) a = xs" "replicate (length ys) a = ys"
    using sets by (simp_all add: replicate_length_same)
  with len show ?thesis by simp
qed

lemma sorted_py_unique:
  fixes key :: "'a \<Rightarrow> error + 'k::linorder"
  assumes cmp: "\<And>zs. \<forall>x \<in> set zs. \<forall>y \<in> set zs. \<forall>a b. key x = Inr a \<longrightarrow> key y = Inr b
                   \<longrightarrow> lt a b = Inr (a < b)"
    and m: "mset xs = mset ys"
    and distinct_keys: "\<forall>x \<in> set xs. \<forall>y \<in> set xs. key x = key y \<longrightarrow> x = y"
    and res: "sorted_py lt key reverse xs = Inr r"
  shows "sorted_py lt key reverse ys = Inr r"
proof -
  define f where "f = projr \<circ> key"
  have sets: "set ys = set xs" using m by (metis mset_eq_setD)
  from sorted_py_cases [OF cmp, of xs reverse] res
  have ok: "\<forall>x \<in> set xs. \<not> isl (key x)"
    and r: "r = (if reverse then rev (sort_key f (rev xs)) else sort_key f xs)"
    by (auto simp: f_def)
  from sorted_py_cases [OF cmp, of ys reverse] ok sets
  have r2: "sorted_py lt key reverse ys
              = Inr (if reverse then rev (sort_key f (rev ys)) else sort_key f ys)"
    by (auto simp: f_def)
  have inj: "inj_on f (set xs)"
  proof (rule inj_onI)
    fix x y assume xy: "x \<in> set xs" "y \<in> set xs" "f x = f y"
    from ok xy have nx: "\<not> isl (key x)" and ny: "\<not> isl (key y)" by blast+
    from xy(3) have "Inr (projr (key x)) = (Inr (projr (key y)) :: error + 'k)"
      by (simp add: f_def)
    then have "key x = key y"
      unfolding sum.collapse(2) [OF nx] sum.collapse(2) [OF ny] .
    with distinct_keys xy show "x = y" by blast
  qed
  have "sort_key f xs = sort_key f ys" using m inj by (rule sort_key_unique)
  moreover have "sort_key f (rev xs) = sort_key f (rev ys)"
    using m inj by (intro sort_key_unique) simp_all
  ultimately show ?thesis by (simp add: r r2)
qed

lemma sort_files_unique:
  assumes times: "getmtime fs2 = getmtime fs1" and sizes: "getsize fs2 = getsize fs1"
    and m: "mset xs = mset ys"
    and no_ties: "\<forall>x \<in> set xs. \<forall>y \<in> set xs. ties fs1 sort_by x y \<longrightarrow> x = y"
    and res: "sort_files fs1 xs sort_by = Inr r"
  shows "sort_files fs2 ys sort_by = Inr r"
proof -
  consider (name) "sort_by = ''Filename''"
    | (newest) "sort_by = ''Date (Newest First)''"
    | (oldest) "sort_by = ''Date (Oldest First)''"
    | (size) "sort_by = ''FileSize''"
    | (other) "sort_by \<noteq> ''Filename''" "sort_by \<noteq> ''Date (Newest First)''"
        "sort_by \<noteq> ''Date (Oldest First)''" "sort_by \<noteq> ''FileSize''"
    by blast
  then show ?thesis
  proof cases
    case name
    from res have 1: "sorted_py list_lt natural_sort_key False xs = Inr r"
      by (simp add: sort_files_def name)
    have 2: "\<forall>x \<in> set xs. \<forall>y \<in> set xs. natural_sort_key x = natural_sort_key y \<longrightarrow> x = y"
      using no_ties by (simp add: ties_def name)
    from sorted_py_unique [OF natural_keys_compare m 2 1]
    show ?thesis by (simp add: sort_files_def name)
  next
    case newest
    from res have 1: "sorted_py (\<lambda>a b. Inr (a < b)) (\<lambda>x. stat (getmtime fs1 x)) True xs = Inr r"
      by (simp add: sort_files_def newest)
    have 2: "\<forall>x \<in> set xs. \<forall>y \<in> set xs.
               stat (getmtime fs1 x) = stat (getmtime fs1 y) \<longrightarrow> x = y"
      using no_ties by (simp add: ties_def newest stat_eq_iff)
    from sorted_py_unique [OF _ m 2 1]
    show ?thesis by (simp add: sort_files_def newest times)
  next
    case oldest
    from res have 1: "sorted_py (\<lambda>a b. Inr (a < b)) (\<lambda>x. stat (getmtime fs1 x)) False xs = Inr r"
      by (simp add: sort_files_def oldest)
    have 2: "\<forall>x \<in> set xs. \<forall>y \<in> set xs.
               stat (getmtime fs1 x) = stat (getmtime fs1 y) \<longrightarrow> x = y"
      using no_ties by (simp add: ties_def oldest stat_eq_iff)
    from sorted_py_unique [OF _ m 2 1]
    show ?thesis by (simp add: sort_files_def oldest times)
  next
    case size
    from res have 1: "sorted_py (\<lambda>a b. Inr (a < b)) (\<lambda>x. stat (getsize fs1 x)) False xs = Inr r"
      by (simp add: sort_files_def size)
    have 2: "\<forall>x \<in> set xs. \<forall>y \<in> set xs.
               stat (getsize fs1 x) = stat (getsize fs1 y) \<longrightarrow> x = y"
      using no_ties by (simp add: ties_def size stat_eq_iff)
    from sorted_py_unique [OF _ m 2 1]
    show ?thesis by (simp add: sort_files_def size sizes)
  next
    case other
    from res have r: "r = xs" by (simp add: sort_files_def other)
    have "\<forall>x \<in> set xs. \<forall>y \<in> set xs. x = y"
      using no_ties by (simp add: ties_def other)
    with m have "xs = ys" by (rule same_elements_same_list)
    then show ?thesis by (simp add: sort_files_def other r)
  qed
qed

section \<open>Index clamping\<close>

text \<open>
  C1. Whenever the sorted candidate list is not empty, the index that \<open>load_image\<close>
  uses is \<open>max 0 (min file_number (file_count - 1))\<close>. It lies in \<open>0 ..< file_count\<close>,
  it is \<open>file_count - 1\<close> for every \<open>file_number \<ge> file_count\<close> and \<open>0\<close> for every
  negative \<open>file_number\<close>; the list access at it does not fail, and the path that
  \<open>load_image\<close> opens and returns is the list element at that index.
\<close>

theorem load_image_selected_index:
  assumes "scan_dirs fs (parse_directories fs directory) [] = Inr found"
    and "sort_files fs found sort_by = Inr image_files"
    and "0 < length image_files"
  shows "let count = int (length image_files);
             i = clamp_index file_number count;
             path = image_files ! nat i
         in i = max 0 (min file_number (count - 1))
          \<and> 0 \<le> i \<and> i < count
          \<and> (count \<le> file_number \<longrightarrow> i = count - 1)
          \<and> (file_number < 0 \<longrightarrow> i = 0)
          \<and> getitem image_files i = Inr path
          \<and> (case image_open fs path of
                None \<Rightarrow> load_image fs directory file_number sort_by = Inl ImageError
              | Some opened \<Rightarrow>
                  (\<exists>out. load_image fs directory file_number sort_by = Inr out
                       \<and> image_path out = path \<and> file_count out = count))"
proof -
  define count where "count = int (length image_files)"
  define i where "i = clamp_index file_number count"
  have pos: "0 < count" using assms(3) by (simp add: count_def)
  have rng: "0 \<le> i" "i < count"
    using pos by (auto simp: i_def clamp_index_def)
  have get: "getitem image_files i = Inr (image_files ! nat i)"
    using rng by (simp add: getitem_in_range count_def)
  have run: "load_image fs directory file_number sort_by =
      (case image_open fs (image_files ! nat i) of
         None \<Rightarrow> Inl ImageError
       | Some opened \<Rightarrow>
           Inr \<lparr>tensor_image = unsqueeze0 (np_image (exif_transpose fs opened)),
                mask_tensor = unsqueeze0 (make_mask (exif_transpose fs opened)),
                image_path = image_files ! nat i,
                filename = basename (image_files ! nat i),
                filename_no_ext = fst (splitext (basename (image_files ! nat i))),
                file_count = count\<rparr>)"
    using assms pos get
    by (simp add: load_image_def Let_def count_def i_def split: option.splits)
  have "i = max 0 (min file_number (count - 1))"
    by (simp add: i_def clamp_index_def)
  moreover have "count \<le> file_number \<longrightarrow> i = count - 1"
    using pos by (auto simp: i_def clamp_index_def)
  moreover have "file_number < 0 \<longrightarrow> i = 0"
    by (auto simp: i_def clamp_index_def)
  moreover have "case image_open fs (image_files ! nat i) of
                None \<Rightarrow> load_image fs directory file_number sort_by = Inl ImageError
              | Some opened \<Rightarrow>
                  (\<exists>out. load_image fs directory file_number sort_by = Inr out
                       \<and> image_path out = image_files ! nat i \<and> file_count out = count)"
    by (simp add: run split: option.splits)
  ultimately show ?thesis
    using rng get unfolding Let_def count_def [symmetric] i_def [symmetric] by blast
qed

theorem load_image_selected_index_witness:
  "(\<exists>out. load_image demo_fs ''A; B ;C'' 5 ''Date (Newest First)'' = Inr out
        \<and> image_path out = ''B/b.jpg'' \<and> file_count out = 2)
   \<and> (\<exists>out. load_image demo_fs ''A; B ;C'' (- 3) ''Date (Newest First)'' = Inr out
        \<and> image_path out = ''A/a.png'' \<and> file_count out = 2)"
proof -
  have high: "\<exists>out. load_image demo_fs ''A; B ;C'' 5 ''Date (Newest First)'' = Inr out
        \<and> image_path out = ''B/b.jpg'' \<and> file_count out = 2"
    using load_image_selected_index [OF demo_scan demo_sort_newest, of 5] demo_open
    by (simp add: clamp_index_def Let_def)
  have low: "\<exists>out. load_image demo_fs ''A; B ;C'' (- 3) ''Date (Newest First)'' = Inr out
        \<and> image_path out = ''A/a.png'' \<and> file_count out = 2"
    using load_image_selected_index [OF demo_scan demo_sort_newest, of "- 3"] demo_open
    by (simp add: clamp_index_def Let_def)
  from high low show ?thesis by blast
qed

section \<open>The mask\<close>

text \<open>
  C4, as the node computes it. When \<open>load_image\<close> returns, the file at the returned
  path was opened. If the opened image (after the orientation step) has a band \<open>A\<close>,
  the mask has shape \<open>[1, height, width]\<close> and its value for an alpha byte \<open>b\<close> is
  \<open>1 - b / 255\<close>, both the quotient and the difference rounded to a 32-bit float; every
  value is within \<open>2^-23\<close> of the exact \<open>1 - b / 255\<close>. Otherwise the mask has shape
  \<open>[1, 64, 64]\<close> and all its 4096 values are 0.
\<close>

theorem load_image_mask:
  assumes "load_image fs directory file_number sort_by = Inr out"
  shows "\<exists>opened. image_open fs (image_path out) = Some opened \<and>
          (let img = exif_transpose fs opened; m = mask_tensor out
           in (''A'' \<in> set (im_bands img) \<longrightarrow>
                 t_shape m = [1, im_height img, im_width img]
               \<and> t_data m = map (\<lambda>b. f32_round (1 - f32_round (of_nat (unat b) / 255)))
                                (im_alpha img)
               \<and> list_all2 (\<lambda>b v. \<bar>v - (1 - of_nat (unat b) / 255)\<bar> \<le> 1 / 2 ^ 23)
                   (im_alpha img) (t_data m))
            \<and> (''A'' \<notin> set (im_bands img) \<longrightarrow>
                 t_shape m = [1, 64, 64] \<and> t_data m = replicate (64 * 64) 0))"
proof -
  from assms obtain opened where
    o: "image_open fs (image_path out) = Some opened"
    and m: "mask_tensor out = unsqueeze0 (make_mask (exif_transpose fs opened))"
    by (elim load_image_Inr) (metis outputs.select_convs(2))
  define img where "img = exif_transpose fs opened"
  have blank: "''A'' \<notin> set (im_bands img) \<Longrightarrow>
      t_shape (mask_tensor out) = [1, 64, 64] \<and> t_data (mask_tensor out) = replicate (64 * 64) 0"
    by (simp add: m img_def [symmetric] make_mask_def unsqueeze0_def zeros_def)
  have alpha: "t_shape (mask_tensor out) = [1, im_height img, im_width img]"
      "t_data (mask_tensor out) = map (\<lambda>b. f32_round (1 - f32_round (of_nat (unat b) / 255)))
                                (im_alpha img)"
    if "''A'' \<in> set (im_bands img)"
    using that
    by (simp_all add: m img_def [symmetric] make_mask_def unsqueeze0_def one_minus_def
        alpha_np_def byte_to_unit_def comp_def)
  have close: "list_all2 (\<lambda>b v. \<bar>v - (1 - of_nat (unat b) / 255)\<bar> \<le> 1 / 2 ^ 23)
                   (im_alpha img)
                   (map (\<lambda>b. f32_round (1 - f32_round (of_nat (unat b) / 255))) (im_alpha img))"
    using mask_value_error
    by (simp add: list_all2_map2 list_all2_same byte_to_unit_def del: One_nat_def)
  show ?thesis
    using o blank alpha close unfolding Let_def img_def by auto
qed

lemma demo_paths:
  "map_sum id image_path (load_image demo_fs ''A'' 0 ''Filename'') = Inr ''A/a.png''"
  "map_sum id image_path (load_image demo_fs ''B'' 0 ''Filename'') = Inr ''B/b.jpg''"
  by code_simp+

theorem load_image_mask_witness:
  "(\<exists>out. load_image demo_fs ''A'' 0 ''Filename'' = Inr out
        \<and> mask_tensor out = \<lparr>t_shape = [1, 1, 3], t_data = [1, 8355711 / 16777216, 0]\<rparr>)
 \<and> (\<exists>out. load_image demo_fs ''B'' 0 ''Filename'' = Inr out
        \<and> mask_tensor out = \<lparr>t_shape = [1, 64, 64], t_data = replicate 4096 0\<rparr>)"
proof -
  from demo_paths(1) obtain a where
    a: "load_image demo_fs ''A'' 0 ''Filename'' = Inr a" and pa: "image_path a = ''A/a.png''"
    by (cases "load_image demo_fs ''A'' 0 ''Filename''") auto
  from demo_paths(2) obtain b where
    b: "load_image demo_fs ''B'' 0 ''Filename'' = Inr b" and pb: "image_path b = ''B/b.jpg''"
    by (cases "load_image demo_fs ''B'' 0 ''Filename''") auto
  have "mask_tensor a = \<lparr>t_shape = [1, 1, 3], t_data = [1, 8355711 / 16777216, 0]\<rparr>"
    using load_image_mask [OF a] demo_mask_values
    by (simp add: pa demo_open demo_image_def byte_to_unit_def Let_def)
  moreover have "mask_tensor b = \<lparr>t_shape = [1, 64, 64], t_data = replicate 4096 0\<rparr>"
    using load_image_mask [OF b]
    by (simp add: pb demo_open demo_rgb_def Let_def)
  ultimately show ?thesis using a b by simp
qed

text \<open>
  C4 as stated gives the mask values \<open>[1, 0.5, 0]\<close> for the alpha bytes
  \<open>[0, 128, 255]\<close>. The value for 128 is \<open>1 - 128 / 255\<close>, as a 32-bit float
  \<open>8355711 / 2^24\<close> (about 0.498), not one half.
\<close>

theorem mask_of_alpha_128_counterexample:
  "im_alpha demo_image = [0, 128, 255]
   \<and> t_data (make_mask demo_image) = [1, 8355711 / 16777216, 0]
   \<and> t_data (make_mask demo_image) \<noteq> [1, 1 / 2, 0]"
  using demo_mask_values
  by (simp add: demo_image_def make_mask_def one_minus_def alpha_np_def)

section \<open>Scanning the directories\<close>

text \<open>
  C5. The directory string is cut at every semicolon (the pieces, each followed by a
  semicolon, give back the string followed by a semicolon, and no piece contains one);
  each piece is stripped of the white space around it; the directories scanned are the
  stripped pieces that are existing directories, in the order of the string and as
  often as they occur. The scan fails only when listing one of them fails; otherwise
  the candidates are, directory after directory in that order, the joined paths of the
  directory's entries whose lower-cased name ends in a supported extension, in listing
  order.
\<close>

theorem scan_concatenates_directories:
  "let entries = split_on CHR '';'' directory;
       dirs = parse_directories fs directory
   in concat (map (\<lambda>w. w @ '';'') entries) = directory @ '';''
    \<and> (\<forall>w \<in> set entries. CHR '';'' \<notin> set w)
    \<and> (\<forall>w \<in> set entries. \<exists>l r. w = l @ strip w @ r \<and> list_all is_space l \<and> list_all is_space r
          \<and> (strip w = [] \<or> \<not> is_space (hd (strip w)) \<and> \<not> is_space (last (strip w))))
    \<and> dirs = filter (isdir fs) (map strip entries)
    \<and> (case scan_dirs fs dirs [] of
          Inl e \<Rightarrow> e = OSError \<and> (\<exists>d \<in> set dirs. listdir fs d = None)
        | Inr found \<Rightarrow>
            (\<forall>d \<in> set dirs. listdir fs d \<noteq> None)
          \<and> found = concat (map (\<lambda>d. map (join d)
                        (filter (\<lambda>name. endswith_any (str_lower name) valid_extensions)
                           (the (listdir fs d)))) dirs))"
proof -
  define dirs where "dirs = parse_directories fs directory"
  have a: "dirs = filter (isdir fs) (map strip (split_on CHR '';'' directory))"
    by (simp add: dirs_def parse_directories_def filter_map comp_def)
  have b: "case scan_dirs fs dirs [] of
          Inl e \<Rightarrow> e = OSError \<and> (\<exists>d \<in> set dirs. listdir fs d = None)
        | Inr found \<Rightarrow>
            (\<forall>d \<in> set dirs. listdir fs d \<noteq> None)
          \<and> found = concat (map (\<lambda>d. map (join d)
                        (filter (\<lambda>name. endswith_any (str_lower name) valid_extensions)
                           (the (listdir fs d)))) dirs)"
  proof (cases "\<exists>d \<in> set dirs. listdir fs d = None")
    case True
    then show ?thesis by (simp add: scan_dirs_None)
  next
    case False
    then have "\<forall>d \<in> set dirs. listdir fs d \<noteq> None" by simp
    from scan_dirs_Some [OF this, of "[]"] this show ?thesis
      by (simp add: has_valid_extension_def [abs_def])
  qed
  show ?thesis
    unfolding Let_def dirs_def [symmetric]
    using a b split_on_concat [of "CHR '';''" directory] split_on_no_sep strip_decompose strip_ends
    by (intro conjI ballI) (simp, blast, metis, simp, simp)
qed

theorem scan_concatenates_directories_witness:
  "parse_directories demo_fs ''A; B ;C;A'' = [''A'', ''B'', ''A'']
   \<and> scan_dirs demo_fs [''A'', ''B'', ''A''] [] = Inr [''A/a.png'', ''B/b.jpg'', ''A/a.png'']
   \<and> scan_dirs demo_fs (parse_directories demo_fs ''A;B'') [] = Inr [''A/a.png'', ''B/b.jpg'']"
proof -
  have p: "parse_directories demo_fs ''A; B ;C;A'' = [''A'', ''B'', ''A'']"
    "parse_directories demo_fs ''A;B'' = [''A'', ''B'']"
    by code_simp+
  have l: "listdir demo_fs ''A'' = Some [''a.png'', ''notes.txt'']"
    "listdir demo_fs ''B'' = Some [''b.jpg'']"
    by (simp_all add: demo_fs_def)
  have e: "endswith_any (str_lower ''a.png'') valid_extensions"
    "\<not> endswith_any (str_lower ''notes.txt'') valid_extensions"
    "endswith_any (str_lower ''b.jpg'') valid_extensions"
    by code_simp+
  have j: "join ''A'' ''a.png'' = ''A/a.png''" "join ''B'' ''b.jpg'' = ''B/b.jpg''"
    by code_simp+
  have 1: "scan_dirs demo_fs [''A'', ''B'', ''A''] [] = Inr [''A/a.png'', ''B/b.jpg'', ''A/a.png'']"
    using scan_concatenates_directories [of "''A; B ;C;A''" demo_fs, unfolded Let_def,
        THEN conjunct2, THEN conjunct2, THEN conjunct2, THEN conjunct2]
    unfolding p
    by (cases "scan_dirs demo_fs [''A'', ''B'', ''A''] []") (simp_all add: l e j)
  have 2: "scan_dirs demo_fs [''A'', ''B''] [] = Inr [''A/a.png'', ''B/b.jpg'']"
    using scan_concatenates_directories [of "''A;B''" demo_fs, unfolded Let_def,
        THEN conjunct2, THEN conjunct2, THEN conjunct2, THEN conjunct2]
    unfolding p
    by (cases "scan_dirs demo_fs [''A'', ''B''] []") (simp_all add: l e j)
  from p 1 2 show ?thesis by simp
qed

section \<open>What a candidate is\<close>

text \<open>
  C8, as the node computes it. After a successful scan the candidates are exactly the
  paths \<open>join d name\<close> where \<open>d\<close> is a scanned directory and \<open>name\<close> is one of its
  direct entries whose lower-cased name ends in \<open>.png\<close>, \<open>.jpg\<close>, \<open>.jpeg\<close>, \<open>.webp\<close>,
  \<open>.bmp\<close> or \<open>.tiff\<close>. The kind of the entry is not looked at.
\<close>

theorem candidates_by_extension:
  assumes "scan_dirs fs (parse_directories fs directory) [] = Inr found"
  shows "set found =
           {join d name | d name names.
              d \<in> set (parse_directories fs directory) \<and> listdir fs d = Some names
            \<and> name \<in> set names
            \<and> (\<exists>e \<in> set valid_extensions. \<exists>stem. str_lower name = stem @ e)}"
proof -
  define dirs where "dirs = parse_directories fs directory"
  have all: "\<forall>d \<in> set dirs. listdir fs d \<noteq> None"
    using assms scan_dirs_None [of dirs fs "[]"] unfolding dirs_def by fastforce
  from scan_dirs_Some [OF all, of "[]"] assms
  have "found = concat (map (\<lambda>d. map (join d) (filter has_valid_extension (the (listdir fs d)))) dirs)"
    by (simp add: dirs_def)
  then have "set found = {join d name | d name. d \<in> set dirs \<and> name \<in> set (the (listdir fs d))
                            \<and> has_valid_extension name}"
    by auto
  also have "\<dots> = {join d name | d name names.
              d \<in> set dirs \<and> listdir fs d = Some names \<and> name \<in> set names
            \<and> (\<exists>e \<in> set valid_extensions. \<exists>stem. str_lower name = stem @ e)}"
    using all by (fastforce simp: has_valid_extension_iff)
  finally show ?thesis by (simp add: dirs_def)
qed

theorem candidates_by_extension_witness:
  "set [''A/a.png'', ''B/b.jpg''] =
     {join d name | d name names.
        d \<in> set (parse_directories demo_fs ''A;B'') \<and> listdir demo_fs d = Some names
      \<and> name \<in> set names
      \<and> (\<exists>e \<in> set valid_extensions. \<exists>stem. str_lower name = stem @ e)}"
  using candidates_by_extension [OF demo_scan_AB] .

text \<open>
  C8 as stated says that every candidate is a file. A sub-directory whose name ends in
  a supported extension is a candidate too.
\<close>

theorem directory_candidate_counterexample:
  "scan_dirs sub_fs (parse_directories sub_fs ''A'') [] = Inr [''A/sub.png'']
   \<and> \<not> isfile sub_fs ''A/sub.png'' \<and> isdir sub_fs ''A/sub.png''"
  by code_simp

section \<open>Stability of the sort\<close>

text \<open>
  C6. In every sort mode, whenever \<open>sort_files\<close> returns, the candidates that have
  the same key as any given path \<open>x\<close> (the same natural key, the same modification
  time, the same size) stand in the result in the order in which they stood in the
  input, the descending mode included.
\<close>

theorem sort_files_stable:
  assumes "sort_files fs files sort_method = Inr ys"
  shows "filter (ties fs sort_method x) ys = filter (ties fs sort_method x) files"
proof -
  consider (name) "sort_method = ''Filename''"
    | (newest) "sort_method = ''Date (Newest First)''"
    | (oldest) "sort_method = ''Date (Oldest First)''"
    | (size) "sort_method = ''FileSize''"
    | (other) "sort_method \<noteq> ''Filename''" "sort_method \<noteq> ''Date (Newest First)''"
        "sort_method \<noteq> ''Date (Oldest First)''" "sort_method \<noteq> ''FileSize''"
    by blast
  then show ?thesis
  proof cases
    case name
    with assms have "sorted_py list_lt natural_sort_key False files = Inr ys"
      by (simp add: sort_files_def)
    from sorted_py_stable [OF natural_keys_compare this, of "natural_sort_key x"]
    show ?thesis by (simp add: ties_alt name)
  next
    case newest
    with assms have "sorted_py (\<lambda>a b. Inr (a < b)) (\<lambda>x. stat (getmtime fs x)) True files = Inr ys"
      by (simp add: sort_files_def)
    from sorted_py_stable [OF _ this, of "stat (getmtime fs x)"]
    show ?thesis by (simp add: ties_alt newest)
  next
    case oldest
    with assms have "sorted_py (\<lambda>a b. Inr (a < b)) (\<lambda>x. stat (getmtime fs x)) False files = Inr ys"
      by (simp add: sort_files_def)
    from sorted_py_stable [OF _ this, of "stat (getmtime fs x)"]
    show ?thesis by (simp add: ties_alt oldest)
  next
    case size
    with assms have "sorted_py (\<lambda>a b. Inr (a < b)) (\<lambda>x. stat (getsize fs x)) False files = Inr ys"
      by (simp add: sort_files_def)
    from sorted_py_stable [OF _ this, of "stat (getsize fs x)"]
    show ?thesis by (simp add: ties_alt size)
  next
    case other
    with assms show ?thesis by (simp add: sort_files_def)
  qed
qed

lemma tie_sorts:
  "sort_files (tie_fs []) [''A/b.png'', ''A/c.png'', ''A/a.png''] ''FileSize''
     = Inr [''A/c.png'', ''A/b.png'', ''A/a.png'']"
  "sort_files (tie_fs []) [''A/c.png'', ''A/b.png'', ''A/a.png''] ''Date (Newest First)''
     = Inr [''A/b.png'', ''A/a.png'', ''A/c.png'']"
  by code_simp+

theorem sort_files_stable_witness:
  "filter (ties (tie_fs []) ''FileSize'' ''A/a.png'') [''A/c.png'', ''A/b.png'', ''A/a.png'']
     = [''A/b.png'', ''A/a.png'']
   \<and> filter (ties (tie_fs []) ''Date (Newest First)'' ''A/a.png'')
       [''A/b.png'', ''A/a.png'', ''A/c.png'']
     = [''A/b.png'', ''A/a.png'']"
proof -
  have t: "ties (tie_fs []) ''FileSize'' ''A/a.png'' ''A/b.png''"
    "ties (tie_fs []) ''FileSize'' ''A/a.png'' ''A/a.png''"
    "\<not> ties (tie_fs []) ''FileSize'' ''A/a.png'' ''A/c.png''"
    "ties (tie_fs []) ''Date (Newest First)'' ''A/a.png'' ''A/b.png''"
    "ties (tie_fs []) ''Date (Newest First)'' ''A/a.png'' ''A/a.png''"
    "\<not> ties (tie_fs []) ''Date (Newest First)'' ''A/a.png'' ''A/c.png''"
    by (simp_all add: ties_def tie_fs_def)
  from sort_files_stable [OF tie_sorts(1), of "''A/a.png''"]
    sort_files_stable [OF tie_sorts(2), of "''A/a.png''"] t
  show ?thesis by simp
qed

section \<open>Natural order of file names\<close>

lemma filename_sort_keyed:
  "sort_files fs [''file2.jpg'', ''file10.jpg'', ''file1.jpg''] ''Filename''
     = Inr [''file1.jpg'', ''file2.jpg'', ''file10.jpg'']
 \<and> ((\<forall>f \<in> set files. ascii_only (basename f))
      \<longrightarrow> (\<exists>ys. sort_files fs files ''Filename'' = Inr ys))
 \<and> (sort_files fs files ''Filename'' = Inr ys
      \<longrightarrow> mset ys = mset files
        \<and> sorted_wrt (\<lambda>a b. \<exists>ka kb. natural_sort_key a = Inr ka \<and> natural_sort_key b = Inr kb
                                \<and> list_lt kb ka = Inr False) ys)
 \<and> (natural_sort_key p = Inr ks
      \<longrightarrow> (\<exists>runs. concat runs = basename p \<and> runs_ok runs
             \<and> list_all2 (\<lambda>run k. k = (if run \<noteq> [] \<and> list_all is_decimal run
                                         then KInt (foldl (\<lambda>a c. 10 * a + digit_value c) 0 run)
                                         else KText (str_lower run))) runs ks))"
proof (intro conjI impI)
  show "sort_files fs [''file2.jpg'', ''file10.jpg'', ''file1.jpg''] ''Filename''
     = Inr [''file1.jpg'', ''file2.jpg'', ''file10.jpg'']"
    using example_names_sorted by (simp add: sort_files_def)
next
  assume "\<forall>f \<in> set files. ascii_only (basename f)"
  then have "\<forall>x \<in> set files. \<exists>k. natural_sort_key x = Inr k"
    by (simp add: natural_sort_key_ascii)
  from sort_files_Filename_total [OF this]
  show "\<exists>ys. sort_files fs files ''Filename'' = Inr ys" by blast
next
  assume "sort_files fs files ''Filename'' = Inr ys"
  then show "mset ys = mset files" by (rule sort_files_set)
next
  assume "sort_files fs files ''Filename'' = Inr ys"
  then show "sorted_wrt (\<lambda>a b. \<exists>ka kb. natural_sort_key a = Inr ka \<and> natural_sort_key b = Inr kb
                                \<and> list_lt kb ka = Inr False) ys"
    by (rule sort_files_Filename_sorted)
next
  assume "natural_sort_key p = Inr ks"
  from natural_sort_key_runs [OF this] re_split_digits_concat [of "basename p"]
    re_split_digits_runs [of "basename p"]
  show "\<exists>runs. concat runs = basename p \<and> runs_ok runs
             \<and> list_all2 (\<lambda>run k. k = (if run \<noteq> [] \<and> list_all is_decimal run
                                         then KInt (foldl (\<lambda>a c. 10 * a + digit_value c) 0 run)
                                         else KText (str_lower run))) runs ks"
    by blast
qed

lemma superscript_facts:
  "has_valid_extension superscript_name"
  "re_split_digits (basename (join ''A'' superscript_name))
     = [[char_of (178 :: nat)], ''1'', ''.png'']"
  "str_isdigit [char_of (178 :: nat)]"
  "py_int [char_of (178 :: nat)] = Inl ValueError"
  "scan_dirs superscript_fs (parse_directories superscript_fs ''A'') []
     = Inr [''A/a.png'', join ''A'' superscript_name]"
  "sort_files superscript_fs [''A/a.png'', join ''A'' superscript_name] ''Filename''
     = Inl ValueError"
  "load_image superscript_fs ''A'' 0 ''Filename'' = Inl ValueError"
  by code_simp+

text \<open>
  C2 at an input where the node does not do what the claim says. The directory \<open>A\<close>
  holds \<open>a.png\<close> and an image whose name is the superscript two followed by \<open>1.png\<close>.
  Both are candidates. Cutting the second name at its runs of digits leaves the
  superscript two as a text of its own, since \<^verbatim>\<open>\d\<close> does not match it. The claim has
  such a text compared as text; the node asks \<^verbatim>\<open>isdigit\<close>, which accepts it, and calls
  \<^verbatim>\<open>int\<close>, which raises \<open>ValueError\<close>: in the mode \<open>Filename\<close> neither \<open>sort_files\<close>
  nor \<open>load_image\<close> orders the candidates, both raise. (For candidates whose keys are
  computed, all names of ASCII characters among them, the order is the claimed one:
  the lemma before this text.)
\<close>

theorem filename_sort_superscript_name:
  "has_valid_extension superscript_name
 \<and> re_split_digits (basename (join ''A'' superscript_name))
     = [[char_of (178 :: nat)], ''1'', ''.png'']
 \<and> str_isdigit [char_of (178 :: nat)]
 \<and> py_int [char_of (178 :: nat)] = Inl ValueError
 \<and> scan_dirs superscript_fs (parse_directories superscript_fs ''A'') []
     = Inr [''A/a.png'', join ''A'' superscript_name]
 \<and> sort_files superscript_fs [''A/a.png'', join ''A'' superscript_name] ''Filename''
     = Inl ValueError
 \<and> load_image superscript_fs ''A'' 0 ''Filename'' = Inl ValueError"
  using superscript_facts by blast

section \<open>Comparing natural keys\<close>

text \<open>
  C9, as the node computes it. The key of every name of ASCII characters only is
  computed. Every computed key has odd length, text at its even places and integers
  at its odd places, so comparing two computed keys never compares an integer with a
  text: the comparison returns a truth value. On computed keys \<open><\<close> is irreflexive
  and transitive, and of two different keys one is smaller. Two names are tied exactly
  when their keys are equal, which different names can be.
\<close>

theorem natural_keys_comparable:
  assumes "natural_sort_key a = Inr ka"
    and "natural_sort_key b = Inr kb"
    and "natural_sort_key c = Inr kc"
  shows "odd (length ka)
       \<and> (\<forall>i < length ka. (even i \<longrightarrow> (\<exists>t. ka ! i = KText t)) \<and> (odd i \<longrightarrow> (\<exists>n. ka ! i = KInt n)))
       \<and> (\<exists>r. list_lt ka kb = Inr r)
       \<and> list_lt ka ka = Inr False
       \<and> (list_lt ka kb = Inr True \<longrightarrow> list_lt kb kc = Inr True \<longrightarrow> list_lt ka kc = Inr True)
       \<and> (list_lt ka kb = Inr True \<or> list_lt kb ka = Inr True \<or> ka = kb)
       \<and> (ascii_only (basename p) \<longrightarrow> (\<exists>k. natural_sort_key p = Inr k))"
proof -
  note alt = assms [THEN natural_sort_key_alternating]
  have ab: "list_lt ka kb = Inr (ka < kb)" and ba: "list_lt kb ka = Inr (kb < ka)"
    and bc: "list_lt kb kc = Inr (kb < kc)" and ac: "list_lt ka kc = Inr (ka < kc)"
    and aa: "list_lt ka ka = Inr (ka < ka)"
    using alt by (simp_all add: list_lt_alternating)
  have "odd (length ka)" using alt(1) by (rule alternating_odd_length)
  moreover have "\<forall>i < length ka. (even i \<longrightarrow> (\<exists>t. ka ! i = KText t))
                               \<and> (odd i \<longrightarrow> (\<exists>n. ka ! i = KInt n))"
    using alternating_places [OF alt(1)] by blast
  moreover have "\<exists>r. list_lt ka kb = Inr r" using ab by blast
  moreover have "list_lt ka ka = Inr False" using aa by simp
  moreover have "list_lt ka kb = Inr True \<longrightarrow> list_lt kb kc = Inr True \<longrightarrow> list_lt ka kc = Inr True"
    unfolding ab bc ac by auto
  moreover have "list_lt ka kb = Inr True \<or> list_lt kb ka = Inr True \<or> ka = kb"
    unfolding ab ba by auto
  moreover have "ascii_only (basename p) \<longrightarrow> (\<exists>k. natural_sort_key p = Inr k)"
    by (simp add: natural_sort_key_ascii)
  ultimately show ?thesis by blast
qed

lemma example_keys:
  "natural_sort_key ''file2.jpg'' = Inr [KText ''file'', KInt 2, KText ''.jpg'']"
  "natural_sort_key ''file10.jpg'' = Inr [KText ''file'', KInt 10, KText ''.jpg'']"
  "natural_sort_key ''file11.jpg'' = Inr [KText ''file'', KInt 11, KText ''.jpg'']"
  "list_lt [KText ''file'', KInt 2, KText ''.jpg''] [KText ''file'', KInt 10, KText ''.jpg'']
     = Inr True"
  "list_lt [KText ''file'', KInt 10, KText ''.jpg''] [KText ''file'', KInt 11, KText ''.jpg'']
     = Inr True"
  by code_simp+

theorem natural_keys_comparable_witness:
  "list_lt [KText ''file'', KInt 2, KText ''.jpg''] [KText ''file'', KInt 11, KText ''.jpg'']
     = Inr True
 \<and> (\<exists>k. natural_sort_key ''A/File10.JPG'' = Inr k)"
proof -
  have "ascii_only (basename ''A/File10.JPG'')" by code_simp
  with natural_keys_comparable [OF example_keys(1) example_keys(2) example_keys(3),
      of "''A/File10.JPG''"] example_keys(4) example_keys(5)
  show ?thesis by blast
qed

text \<open>
  C9 as stated calls the comparison a total order on file names. The names \<open>A.png\<close>
  and \<open>a.png\<close> are different and have the same key, so neither is smaller.
\<close>

theorem natural_key_tie_counterexample:
  "natural_sort_key ''A.png'' = Inr [KText ''a.png'']
 \<and> natural_sort_key ''a.png'' = Inr [KText ''a.png'']
 \<and> list_lt [KText ''a.png''] [KText ''a.png''] = Inr False
 \<and> ''A.png'' \<noteq> ''a.png''"
  by code_simp

section \<open>The returned metadata\<close>

text \<open>
  C10. Whenever \<open>load_image\<close> returns, the scan and the sort have returned, the
  returned count is the length of the sorted list and at least 1, and the returned path
  is an element of that list. The returned file name holds no slash and is the end of
  the path, after nothing or after a slash. The returned name without extension is
  the file name with its extension taken away, the extension being the last dot and
  what follows it when a character other than a dot stands before that dot, and empty
  otherwise (then the name is a row of dots followed by a text without dots).
\<close>

theorem load_image_metadata:
  assumes "load_image fs directory file_number sort_by = Inr out"
  shows "\<exists>found image_files.
           scan_dirs fs (parse_directories fs directory) [] = Inr found
         \<and> sort_files fs found sort_by = Inr image_files
         \<and> file_count out = int (length image_files)
         \<and> 1 \<le> file_count out
         \<and> image_path out \<in> set image_files
         \<and> CHR ''/'' \<notin> set (filename out)
         \<and> (\<exists>pre. image_path out = pre @ filename out \<and> (pre = [] \<or> last pre = CHR ''/''))
         \<and> (\<exists>ext. filename out = filename_no_ext out @ ext
               \<and> (ext = [] \<and> (\<exists>n rest. filename out = replicate n (CHR ''.'') @ rest
                                        \<and> CHR ''.'' \<notin> set rest)
                  \<or> (\<exists>e. ext = CHR ''.'' # e \<and> CHR ''.'' \<notin> set e
                        \<and> (\<exists>c \<in> set (filename_no_ext out). c \<noteq> CHR ''.''))))"
proof -
  from assms obtain found image_files opened where
    f: "scan_dirs fs (parse_directories fs directory) [] = Inr found"
    and s: "sort_files fs found sort_by = Inr image_files"
    and ne: "image_files \<noteq> []"
    and p: "image_path out = image_files ! nat (clamp_index file_number (int (length image_files)))"
    and out: "out = \<lparr>tensor_image = unsqueeze0 (np_image (exif_transpose fs opened)),
            mask_tensor = unsqueeze0 (make_mask (exif_transpose fs opened)),
            image_path = image_path out,
            filename = basename (image_path out),
            filename_no_ext = fst (splitext (basename (image_path out))),
            file_count = int (length image_files)\<rparr>"
    by (rule load_image_Inr)
  have c: "file_count out = int (length image_files)" by (subst out) simp
  have fn: "filename out = basename (image_path out)" by (subst out) simp
  have fe: "filename_no_ext out = fst (splitext (filename out))"
    unfolding fn by (subst out) simp
  have "0 \<le> clamp_index file_number (int (length image_files))"
    "clamp_index file_number (int (length image_files)) < int (length image_files)"
    using ne by (auto simp: clamp_index_def)
  then have mem: "image_path out \<in> set image_files"
    unfolding p by (intro nth_mem) simp
  have one: "1 \<le> file_count out" using ne c by (cases image_files) auto
  note b = basename_last_component [of "image_path out", folded fn]
  from b have slash: "CHR ''/'' \<notin> set (filename out)" by blast
  note e = splitext_name [OF slash, folded fe]
  from f s c one mem b e show ?thesis by blast
qed

theorem load_image_metadata_witness:
  "\<exists>out. load_image demo_fs ''A; B ;C'' 5 ''Filename'' = Inr out
       \<and> 1 \<le> file_count out
       \<and> CHR ''/'' \<notin> set (filename out)
       \<and> (\<exists>pre. image_path out = pre @ filename out)
       \<and> (\<exists>ext. filename out = filename_no_ext out @ ext)"
proof -
  have "\<not> isl (load_image demo_fs ''A; B ;C'' 5 ''Filename'')" by code_simp
  then obtain out where out: "load_image demo_fs ''A; B ;C'' 5 ''Filename'' = Inr out"
    by (metis sum.collapse(2))
  from load_image_metadata [OF out] out show ?thesis by blast
qed

section \<open>Errors of the node\<close>

text \<open>
  C3, as the node computes it. \<open>load_image\<close> raises its own error (no valid image
  files) exactly when the scan returns no candidate. It catches nothing, so an error
  of a call it makes comes through. Where, in the mode \<open>Filename\<close>, the keys of all
  candidates are computed, a run that fails fails with the node's own error, or with
  an \<open>OSError\<close> because a directory cannot be listed or, in the date and size modes,
  the time or size of a candidate cannot be read, or with the decoder's error because
  the selected file cannot be opened and decoded. When there is a candidate, the sort
  returns and the selected file is opened and decoded, \<open>load_image\<close> returns its
  outputs.
\<close>

theorem load_image_errors:
  "(load_image fs d n s = Inl NoValidImageFiles
      \<longleftrightarrow> scan_dirs fs (parse_directories fs d) [] = Inr [])
 \<and> ((s = ''Filename'' \<longrightarrow>
        (\<forall>found. scan_dirs fs (parse_directories fs d) [] = Inr found
           \<longrightarrow> (\<forall>c \<in> set found. \<exists>k. natural_sort_key c = Inr k)))
      \<and> load_image fs d n s = Inl e \<longrightarrow>
      e = NoValidImageFiles
    \<or> e = OSError \<and> ((\<exists>dir \<in> set (parse_directories fs d). listdir fs dir = None)
         \<or> (\<exists>found. scan_dirs fs (parse_directories fs d) [] = Inr found
              \<and> ((s = ''Date (Newest First)'' \<or> s = ''Date (Oldest First)'')
                    \<and> (\<exists>c \<in> set found. getmtime fs c = None)
                 \<or> s = ''FileSize'' \<and> (\<exists>c \<in> set found. getsize fs c = None))))
    \<or> e = ImageError
         \<and> (\<exists>found files. scan_dirs fs (parse_directories fs d) [] = Inr found
               \<and> sort_files fs found s = Inr files \<and> files \<noteq> []
               \<and> image_open fs (files ! nat (clamp_index n (int (length files)))) = None))
 \<and> (scan_dirs fs (parse_directories fs d) [] = Inr found \<and> found \<noteq> []
      \<and> sort_files fs found s = Inr files
      \<and> image_open fs (files ! nat (clamp_index n (int (length files)))) \<noteq> None
      \<longrightarrow> (\<exists>out. load_image fs d n s = Inr out))"
proof (intro conjI)
  have 1: "scan_dirs fs (parse_directories fs d) [] \<noteq> Inl NoValidImageFiles"
    using scan_dirs_Inl [of fs "parse_directories fs d" "[]" NoValidImageFiles] by blast
  have 2: "sort_files fs found' s \<noteq> Inl NoValidImageFiles" for found'
    using sort_files_Inl [of fs found' s NoValidImageFiles] by blast
  show "load_image fs d n s = Inl NoValidImageFiles
      \<longleftrightarrow> scan_dirs fs (parse_directories fs d) [] = Inr []"
  proof
    assume l: "load_image fs d n s = Inl NoValidImageFiles"
    show "scan_dirs fs (parse_directories fs d) [] = Inr []"
    proof (cases rule: load_image_cases [of fs d n s])
      case (scan e)
      with l 1 show ?thesis by simp
    next
      case (sort found e)
      with l 2 show ?thesis by simp
    next
      case none
      then show ?thesis by simp
    next
      case (img found files)
      with l show ?thesis by simp
    next
      case (ok found files out)
      with l show ?thesis by simp
    qed
  next
    assume "scan_dirs fs (parse_directories fs d) [] = Inr []"
    then show "load_image fs d n s = Inl NoValidImageFiles"
      by (simp add: load_image_def sort_files_Nil)
  qed
next
  show "(s = ''Filename'' \<longrightarrow>
        (\<forall>found. scan_dirs fs (parse_directories fs d) [] = Inr found
           \<longrightarrow> (\<forall>c \<in> set found. \<exists>k. natural_sort_key c = Inr k)))
      \<and> load_image fs d n s = Inl e \<longrightarrow>
      e = NoValidImageFiles
    \<or> e = OSError \<and> ((\<exists>dir \<in> set (parse_directories fs d). listdir fs dir = None)
         \<or> (\<exists>found. scan_dirs fs (parse_directories fs d) [] = Inr found
              \<and> ((s = ''Date (Newest First)'' \<or> s = ''Date (Oldest First)'')
                    \<and> (\<exists>c \<in> set found. getmtime fs c = None)
                 \<or> s = ''FileSize'' \<and> (\<exists>c \<in> set found. getsize fs c = None))))
    \<or> e = ImageError
         \<and> (\<exists>found files. scan_dirs fs (parse_directories fs d) [] = Inr found
               \<and> sort_files fs found s = Inr files \<and> files \<noteq> []
               \<and> image_open fs (files ! nat (clamp_index n (int (length files)))) = None)"
    (is "?keyed \<and> _ \<longrightarrow> ?none \<or> ?os \<or> ?image")
  proof
    assume "?keyed \<and> load_image fs d n s = Inl e"
    then have keyed: ?keyed and l: "load_image fs d n s = Inl e" by blast+
    show "?none \<or> ?os \<or> ?image"
    proof (cases rule: load_image_cases [of fs d n s])
      case (scan e')
      with l have "scan_dirs fs (parse_directories fs d) [] = Inl e" by simp
      from scan_dirs_Inl [OF this] have ?os by simp
      then show ?thesis by simp
    next
      case (sort found e')
      with l have f: "sort_files fs found s = Inl e" by simp
      have "\<not> (s = ''Filename'' \<and> (\<exists>c \<in> set found. natural_sort_key c = Inl ValueError))"
      proof
        assume a: "s = ''Filename'' \<and> (\<exists>c \<in> set found. natural_sort_key c = Inl ValueError)"
        then obtain c where c: "c \<in> set found" "natural_sort_key c = Inl ValueError" by blast
        from keyed a sort(1) c(1) obtain k where "natural_sort_key c = Inr k" by blast
        with c(2) show False by simp
      qed
      with sort_files_Inl [OF f] have
        "e = OSError \<and> ((s = ''Date (Newest First)'' \<or> s = ''Date (Oldest First)'')
                    \<and> (\<exists>c \<in> set found. getmtime fs c = None)
                 \<or> s = ''FileSize'' \<and> (\<exists>c \<in> set found. getsize fs c = None))"
        by argo
      then have ?os by (simp add: sort(1))
      then show ?thesis by simp
    next
      case none
      with l have ?none by simp
      then show ?thesis by simp
    next
      case (img found files)
      with l have "e = ImageError" by simp
      with img have ?image by simp
      then show ?thesis by simp
    next
      case (ok found files out)
      with l show ?thesis by simp
    qed
  qed
next
  show "scan_dirs fs (parse_directories fs d) [] = Inr found \<and> found \<noteq> []
      \<and> sort_files fs found s = Inr files
      \<and> image_open fs (files ! nat (clamp_index n (int (length files)))) \<noteq> None
      \<longrightarrow> (\<exists>out. load_image fs d n s = Inr out)"
  proof
    assume a: "scan_dirs fs (parse_directories fs d) [] = Inr found \<and> found \<noteq> []
      \<and> sort_files fs found s = Inr files
      \<and> image_open fs (files ! nat (clamp_index n (int (length files)))) \<noteq> None"
    show "\<exists>out. load_image fs d n s = Inr out"
    proof (cases rule: load_image_cases [of fs d n s])
      case (scan e)
      with a show ?thesis by simp
    next
      case (sort found' e)
      with a show ?thesis by simp
    next
      case none
      with a show ?thesis by auto
    next
      case (img found' files')
      with a show ?thesis by auto
    next
      case (ok found' files' out)
      then show ?thesis by blast
    qed
  qed
qed

lemma demo_empty:
  "scan_dirs demo_fs (parse_directories demo_fs ''C'') [] = Inr []"
  by code_simp

lemma demo_sort_name:
  "sort_files demo_fs [''A/a.png'', ''B/b.jpg''] ''Filename'' = Inr [''A/a.png'', ''B/b.jpg'']"
  by code_simp

lemma sub_size_run:
  "scan_dirs sub_fs (parse_directories sub_fs ''A'') [] = Inr [''A/sub.png'']"
  "load_image sub_fs ''A'' 0 ''FileSize'' = Inl ImageError"
  by code_simp+

theorem load_image_errors_witness:
  "load_image demo_fs ''C'' 0 ''Filename'' = Inl NoValidImageFiles
 \<and> (\<exists>out. load_image demo_fs ''A;B'' 0 ''Filename'' = Inr out)
 \<and> (\<exists>files. sort_files sub_fs [''A/sub.png''] ''FileSize'' = Inr files \<and> files \<noteq> []
        \<and> image_open sub_fs (files ! nat (clamp_index 0 (int (length files)))) = None)"
proof -
  have o: "image_open demo_fs ([''A/a.png'', ''B/b.jpg'']
             ! nat (clamp_index 0 (int (length [''A/a.png'', ''B/b.jpg''])))) \<noteq> None"
    by (simp add: clamp_index_def demo_open)
  from load_image_errors [of demo_fs "''C''" 0 "''Filename''"] demo_empty
  have 1: "load_image demo_fs ''C'' 0 ''Filename'' = Inl NoValidImageFiles" by blast
  from load_image_errors [of demo_fs "''A;B''" 0 "''Filename''" _
      "[''A/a.png'', ''B/b.jpg'']" "[''A/a.png'', ''B/b.jpg'']"] demo_scan_AB demo_sort_name o
  have 2: "\<exists>out. load_image demo_fs ''A;B'' 0 ''Filename'' = Inr out" by blast
  have k: "''FileSize'' = ''Filename'' \<longrightarrow>
        (\<forall>found. scan_dirs sub_fs (parse_directories sub_fs ''A'') [] = Inr found
           \<longrightarrow> (\<forall>c \<in> set found. \<exists>k. natural_sort_key c = Inr k))"
    by simp
  from load_image_errors [of sub_fs "''A''" 0 "''FileSize''" ImageError] k sub_size_run(2)
  have "\<exists>found files. scan_dirs sub_fs (parse_directories sub_fs ''A'') [] = Inr found
               \<and> sort_files sub_fs found ''FileSize'' = Inr files \<and> files \<noteq> []
               \<and> image_open sub_fs (files ! nat (clamp_index 0 (int (length files)))) = None"
    by simp
  then have 3: "\<exists>files. sort_files sub_fs [''A/sub.png''] ''FileSize'' = Inr files \<and> files \<noteq> []
        \<and> image_open sub_fs (files ! nat (clamp_index 0 (int (length files)))) = None"
    by (simp add: sub_size_run(1))
  from 1 2 3 show ?thesis by blast
qed

text \<open>
  C3 as stated lets \<open>load_image\<close> succeed whenever a candidate exists. Here the one
  candidate is a directory named \<open>sub.png\<close>, which the decoder cannot open.
\<close>

theorem load_image_other_error_counterexample:
  "scan_dirs sub_fs (parse_directories sub_fs ''A'') [] = Inr [''A/sub.png'']
 \<and> load_image sub_fs ''A'' 0 ''Filename'' = Inl ImageError"
  by code_simp

section \<open>Independence of the listing order\<close>

text \<open>
  C7, as the node computes it. Take two file systems that differ only in the order in
  which each directory lists its entries. If no two different candidates have the same
  key under the sort mode, then every run that returns on the one returns the same
  outputs on the other. Candidates with the same key keep their listing order, so with
  such candidates the outputs can differ.
\<close>

theorem load_image_listing_order:
  assumes "isdir fs2 = isdir fs1"
    and "getmtime fs2 = getmtime fs1"
    and "getsize fs2 = getsize fs1"
    and "image_open fs2 = image_open fs1"
    and "exif_transpose fs2 = exif_transpose fs1"
    and "\<And>d. rel_option (\<lambda>a b. mset a = mset b) (listdir fs1 d) (listdir fs2 d)"
    and "\<forall>found. scan_dirs fs1 (parse_directories fs1 directory) [] = Inr found
           \<longrightarrow> (\<forall>x \<in> set found. \<forall>y \<in> set found. ties fs1 sort_by x y \<longrightarrow> x = y)"
    and "load_image fs1 directory file_number sort_by = Inr out"
  shows "load_image fs2 directory file_number sort_by = Inr out"
proof -
  have dirs: "parse_directories fs2 directory = parse_directories fs1 directory"
    by (simp add: parse_directories_def assms(1))
  from assms(8) obtain found1 files opened where
    f1: "scan_dirs fs1 (parse_directories fs1 directory) [] = Inr found1"
    and s1: "sort_files fs1 found1 sort_by = Inr files"
    and ne: "files \<noteq> []"
    and o: "image_open fs1 (image_path out) = Some opened"
    and p: "image_path out = files ! nat (clamp_index file_number (int (length files)))"
    and out: "out = \<lparr>tensor_image = unsqueeze0 (np_image (exif_transpose fs1 opened)),
            mask_tensor = unsqueeze0 (make_mask (exif_transpose fs1 opened)),
            image_path = image_path out,
            filename = basename (image_path out),
            filename_no_ext = fst (splitext (basename (image_path out))),
            file_count = int (length files)\<rparr>"
    by (rule load_image_Inr)
  from scan_dirs_mset [OF assms(6) f1] obtain found2 where
    f2: "scan_dirs fs2 (parse_directories fs1 directory) [] = Inr found2"
    and m: "mset found1 = mset found2" by blast
  from assms(7) f1 have nt: "\<forall>x \<in> set found1. \<forall>y \<in> set found1. ties fs1 sort_by x y \<longrightarrow> x = y"
    by blast
  have s2: "sort_files fs2 found2 sort_by = Inr files"
    using assms(2) assms(3) m nt s1 by (rule sort_files_unique)
  define i where "i = clamp_index file_number (int (length files))"
  have "0 \<le> i" "i < int (length files)"
    using ne by (auto simp: i_def clamp_index_def)
  then have g: "getitem files i = Inr (files ! nat i)" by (rule getitem_in_range)
  have o2: "image_open fs2 (files ! nat i) = Some opened"
    using o p by (simp add: assms(4) i_def)
  have "load_image fs2 directory file_number sort_by =
      Inr \<lparr>tensor_image = unsqueeze0 (np_image (exif_transpose fs1 opened)),
            mask_tensor = unsqueeze0 (make_mask (exif_transpose fs1 opened)),
            image_path = files ! nat i,
            filename = basename (files ! nat i),
            filename_no_ext = fst (splitext (basename (files ! nat i))),
            file_count = int (length files)\<rparr>"
    using f2 s2 ne g o2
    by (simp add: load_image_def dirs Let_def i_def [symmetric] assms(5))
  also have "\<lparr>tensor_image = unsqueeze0 (np_image (exif_transpose fs1 opened)),
            mask_tensor = unsqueeze0 (make_mask (exif_transpose fs1 opened)),
            image_path = files ! nat i,
            filename = basename (files ! nat i),
            filename_no_ext = fst (splitext (basename (files ! nat i))),
            file_count = int (length files)\<rparr> = out"
    by (subst out) (simp add: p i_def)
  finally show ?thesis .
qed

lemma distinct_sizes_run:
  "scan_dirs (tie_fs [''a.png'', ''c.png'']) (parse_directories (tie_fs [''a.png'', ''c.png'']) ''A'') []
     = Inr [''A/a.png'', ''A/c.png'']"
  "\<not> isl (load_image (tie_fs [''a.png'', ''c.png'']) ''A'' 0 ''FileSize'')"
  by code_simp+

theorem load_image_listing_order_witness:
  "load_image (tie_fs [''c.png'', ''a.png'']) ''A'' 0 ''FileSize''
     = load_image (tie_fs [''a.png'', ''c.png'']) ''A'' 0 ''FileSize''
 \<and> \<not> isl (load_image (tie_fs [''a.png'', ''c.png'']) ''A'' 0 ''FileSize'')"
proof -
  define fs1 where "fs1 = tie_fs [''a.png'', ''c.png'']"
  define fs2 where "fs2 = tie_fs [''c.png'', ''a.png'']"
  from distinct_sizes_run(2) obtain out where
    out: "load_image fs1 ''A'' 0 ''FileSize'' = Inr out"
    unfolding fs1_def by (metis sum.collapse(2))
  have same: "isdir fs2 = isdir fs1" "getmtime fs2 = getmtime fs1" "getsize fs2 = getsize fs1"
    "image_open fs2 = image_open fs1" "exif_transpose fs2 = exif_transpose fs1"
    by (simp_all add: fs1_def fs2_def tie_fs_def)
  have perm: "rel_option (\<lambda>a b. mset a = mset b) (listdir fs1 d) (listdir fs2 d)" for d
    by (simp add: fs1_def fs2_def tie_fs_def)
  have keys: "\<forall>found. scan_dirs fs1 (parse_directories fs1 ''A'') [] = Inr found
           \<longrightarrow> (\<forall>x \<in> set found. \<forall>y \<in> set found. ties fs1 ''FileSize'' x y \<longrightarrow> x = y)"
    using distinct_sizes_run(1) by (simp add: fs1_def ties_def tie_fs_def)
  from load_image_listing_order [OF same perm keys out]
  have "load_image fs2 ''A'' 0 ''FileSize'' = Inr out" .
  with out distinct_sizes_run(2) show ?thesis
    by (simp add: fs1_def fs2_def)
qed

text \<open>
  C7 as stated holds for every listing order. With two images of the same size in
  one directory, sorting by size keeps the listing order, and the first image of the
  result is the one listed first.
\<close>

theorem listing_order_counterexample:
  "map_sum id image_path (load_image (tie_fs [''a.png'', ''b.png'']) ''A'' 0 ''FileSize'')
     = Inr ''A/a.png''
 \<and> map_sum id image_path (load_image (tie_fs [''b.png'', ''a.png'']) ''A'' 0 ''FileSize'')
     = Inr ''A/b.png''
 \<and> getsize (tie_fs [''a.png'', ''b.png'']) ''A/a.png''
     = getsize (tie_fs [''a.png'', ''b.png'']) ''A/b.png''"
  by code_simp

end
